theory Spec2Isabelle
  imports Complex_Main "HOL-Library.Sublist" "HOL-Library.Product_Lexorder"
begin

section \<open>Python strings\<close>

text \<open>
  A Python \<open>str\<close> is modelled as a HOL \<open>string\<close>; each \<open>char\<close> stands for the code
  point of the same number, so the model covers the code points below 256. The line
  boundaries of \<open>str.splitlines\<close> and the white space of \<open>str.strip\<close> are the ones
  CPython uses in that range.
\<close>

abbreviation LF :: char where "LF \<equiv> CHR 0x0A"
abbreviation CR :: char where "CR \<equiv> CHR 0x0D"

definition is_linebreak :: "char \<Rightarrow> bool" where
  "is_linebreak c \<longleftrightarrow>
     c \<in> set [CHR 0x0A, CHR 0x0B, CHR 0x0C, CHR 0x0D, CHR 0x1C, CHR 0x1D, CHR 0x1E, CHR 0x85]"

definition is_space :: "char \<Rightarrow> bool" where
  "is_space c \<longleftrightarrow>
     c \<in> set [CHR 0x09, CHR 0x0A, CHR 0x0B, CHR 0x0C, CHR 0x0D, CHR 0x1C, CHR 0x1D, CHR 0x1E,
                CHR 0x1F, CHR 0x20, CHR 0x85, CHR 0xA0]"

text \<open>\<open>str.splitlines()\<close>: the first argument is the line read so far.\<close>

fun splitlines_from :: "string \<Rightarrow> string \<Rightarrow> string list" where
  "splitlines_from cur [] = (if cur = [] then [] else [cur])"
| "splitlines_from cur [c] = (if is_linebreak c then [cur] else [cur @ [c]])"
| "splitlines_from cur (c # d # cs) =
     (if c = CR \<and> d = LF then cur # splitlines_from [] cs
      else if is_linebreak c then cur # splitlines_from [] (d # cs)
      else splitlines_from (cur @ [c]) (d # cs))"

definition splitlines :: "string \<Rightarrow> string list" where
  "splitlines s = splitlines_from [] s"

text \<open>\<open>sep.join(xs)\<close>, \<open>s.strip()\<close>, \<open>s.startswith(p)\<close> and \<open>str(n)\<close> for a length.\<close>

fun join :: "string \<Rightarrow> string list \<Rightarrow> string" where
  "join sep [] = []"
| "join sep [x] = x"
| "join sep (x # y # ys) = x @ sep @ join sep (y # ys)"

definition strip :: "string \<Rightarrow> string" where
  "strip s = rev (dropWhile is_space (rev (dropWhile is_space s)))"

definition startswith :: "string \<Rightarrow> string \<Rightarrow> bool" where
  "startswith s p \<longleftrightarrow> prefix p s"

definition digit_char :: "nat \<Rightarrow> char" where
  "digit_char d = char_of (48 + d)"

fun str_nat :: "nat \<Rightarrow> string" where
  "str_nat n = (if n < 10 then [digit_char n] else str_nat (n div 10) @ [digit_char (n mod 10)])"

section \<open>Line diff: \<open>difflib.unified_diff\<close>\<close>

text \<open>
  \<open>compare_texts\<close> hands both line lists to \<open>difflib.unified_diff\<close> of the Python
  standard library, which runs a \<open>SequenceMatcher(None, a, b)\<close> (no junk function,
  \<open>autojunk\<close> on) and renders its grouped opcodes with three lines of context.
\<close>

datatype tag = Replace | Delete | Insert | Equal

type_synonym opcode = "tag \<times> nat \<times> nat \<times> nat \<times> nat"
type_synonym match = "nat \<times> nat \<times> nat"
type_synonym region = "nat \<times> nat \<times> nat \<times> nat"

text \<open>
  \<open>__chain_b\<close>: \<open>b2j[elt]\<close> lists the indices of \<open>elt\<close> in \<open>b\<close>, in increasing order;
  when \<open>b\<close> has 200 elements or more, an element occurring more than
  \<open>len(b) // 100 + 1\<close> times is popular and its entry is deleted. The result here is
  \<open>b2j.get(elt, [])\<close>.
\<close>

definition b2j :: "'a list \<Rightarrow> 'a \<Rightarrow> nat list" where
  "b2j b elt =
     (let idxs = filter (\<lambda>i. b ! i = elt) [0..<length b]
      in if length b \<ge> 200 \<and> length idxs > length b div 100 + 1 then [] else idxs)"

text \<open>
  \<open>find_longest_match\<close>. The inner loop over the indices \<open>j\<close> of \<open>a[i]\<close> in \<open>b\<close>
  (\<open>continue\<close> below \<open>blo\<close>, \<open>break\<close> from \<open>bhi\<close> on), the outer loop over \<open>i\<close>, and the
  two loops that extend the best match at both ends. With no junk the two further
  loops of the library, guarded by \<open>isbjunk\<close>, never run.
\<close>

fun scan_row ::
  "(nat \<rightharpoonup> nat) \<Rightarrow> nat \<Rightarrow> nat \<Rightarrow> nat \<Rightarrow> nat list \<Rightarrow> (nat \<rightharpoonup> nat) \<Rightarrow> match
     \<Rightarrow> (nat \<rightharpoonup> nat) \<times> match" where
  "scan_row j2len i blo bhi [] newj2len best = (newj2len, best)"
| "scan_row j2len i blo bhi (j # js) newj2len (besti, bestj, bestsize) =
     (if j < blo then scan_row j2len i blo bhi js newj2len (besti, bestj, bestsize)
      else if j \<ge> bhi then (newj2len, (besti, bestj, bestsize))
      else
        let k = (if j = 0 then 0 else case j2len (j - 1) of None \<Rightarrow> 0 | Some v \<Rightarrow> v) + 1
        in scan_row j2len i blo bhi js (newj2len(j \<mapsto> k))
             (if k > bestsize then (i + 1 - k, j + 1 - k, k) else (besti, bestj, bestsize)))"

fun scan_rows ::
  "'a list \<Rightarrow> 'a list \<Rightarrow> nat \<Rightarrow> nat \<Rightarrow> nat list \<Rightarrow> (nat \<rightharpoonup> nat) \<Rightarrow> match \<Rightarrow> match" where
  "scan_rows a b blo bhi [] j2len best = best"
| "scan_rows a b blo bhi (i # rows) j2len best =
     (case scan_row j2len i blo bhi (b2j b (a ! i)) Map.empty best of
        (newj2len, best') \<Rightarrow> scan_rows a b blo bhi rows newj2len best')"

function extend_down :: "'a list \<Rightarrow> 'a list \<Rightarrow> nat \<Rightarrow> nat \<Rightarrow> match \<Rightarrow> match" where
  "extend_down a b alo blo (besti, bestj, bestsize) =
     (if besti > alo \<and> bestj > blo \<and> a ! (besti - 1) = b ! (bestj - 1)
      then extend_down a b alo blo (besti - 1, bestj - 1, bestsize + 1)
      else (besti, bestj, bestsize))"
  by pat_completeness auto
termination
  by (relation "measure (\<lambda>(a, b, alo, blo, besti, bestj, bestsize). besti)") auto

function extend_up :: "'a list \<Rightarrow> 'a list \<Rightarrow> nat \<Rightarrow> nat \<Rightarrow> match \<Rightarrow> match" where
  "extend_up a b ahi bhi (besti, bestj, bestsize) =
     (if besti + bestsize < ahi \<and> bestj + bestsize < bhi
         \<and> a ! (besti + bestsize) = b ! (bestj + bestsize)
      then extend_up a b ahi bhi (besti, bestj, bestsize + 1)
      else (besti, bestj, bestsize))"
  by pat_completeness auto
termination
  by (relation "measure (\<lambda>(a, b, ahi, bhi, besti, bestj, bestsize). ahi - (besti + bestsize))") auto

declare extend_down.simps [simp del] extend_up.simps [simp del]

definition find_longest_match :: "'a list \<Rightarrow> 'a list \<Rightarrow> nat \<Rightarrow> nat \<Rightarrow> nat \<Rightarrow> nat \<Rightarrow> match" where
  "find_longest_match a b alo ahi blo bhi =
     extend_up a b ahi bhi
       (extend_down a b alo blo
          (scan_rows a b blo bhi [alo..<ahi] Map.empty (alo, blo, 0)))"

text \<open>
  The match found lies inside the region searched; an empty match sits at its lower
  corner. The queue loop of \<open>get_matching_blocks\<close> terminates because of this.
\<close>

definition in_region :: "region \<Rightarrow> match \<Rightarrow> bool" where
  "in_region r m = (case r of (alo, ahi, blo, bhi) \<Rightarrow> case m of (i, j, k) \<Rightarrow>
      alo \<le> i \<and> blo \<le> j \<and>
      (k = 0 \<and> i = alo \<and> j = blo \<or> i + k \<le> ahi \<and> j + k \<le> bhi))"

definition j2len_ok :: "nat \<Rightarrow> nat \<Rightarrow> nat \<Rightarrow> (nat \<rightharpoonup> nat) \<Rightarrow> bool" where
  "j2len_ok r blo bhi m \<longleftrightarrow> (\<forall>j v. m j = Some v \<longrightarrow> v \<le> r \<and> blo + v \<le> j + 1 \<and> j < bhi)"

lemma scan_row_ok:
  assumes "j2len_ok (i - alo) blo bhi j2len" "j2len_ok (i + 1 - alo) blo bhi new"
    "in_region (alo, ahi, blo, bhi) best" "alo \<le> i" "i < ahi"
    "scan_row j2len i blo bhi js new best = (new', best')"
  shows "j2len_ok (i + 1 - alo) blo bhi new' \<and> in_region (alo, ahi, blo, bhi) best'"
  using assms
proof (induction js arbitrary: new best)
  case Nil
  then show ?case by simp
next
  case (Cons j js)
  obtain bi bj bs where best: "best = (bi, bj, bs)" by (cases best) auto
  show ?case
  proof (cases "j < blo")
    case True
    with Cons best show ?thesis by simp
  next
    case False
    note nb = this
    show ?thesis
    proof (cases "j \<ge> bhi")
      case True
      with Cons nb best show ?thesis by simp
    next
      case False
      define k where "k = (if j = 0 then 0 else case j2len (j - 1) of None \<Rightarrow> 0 | Some v \<Rightarrow> v) + 1"
      have prev: "v \<le> i - alo \<and> blo + v \<le> j" if "0 < j" "j2len (j - 1) = Some v" for v
        using Cons.prems(1) that unfolding j2len_ok_def by (metis Suc_pred' add.commute plus_1_eq_Suc)
      have k1: "k \<le> i + 1 - alo"
        using prev nb \<open>alo \<le> i\<close> by (cases "j = 0"; cases "j2len (j - 1)") (auto simp: k_def)
      have k2: "blo + k \<le> j + 1"
        using prev nb \<open>alo \<le> i\<close> by (cases "j = 0"; cases "j2len (j - 1)") (auto simp: k_def)
      have k0: "0 < k" by (simp add: k_def)
      have new_ok: "j2len_ok (i + 1 - alo) blo bhi (new(j \<mapsto> k))"
        using Cons.prems(2) k1 k2 False by (auto simp: j2len_ok_def)
      have best_ok: "in_region (alo, ahi, blo, bhi)
          (if k > bs then (i + 1 - k, j + 1 - k, k) else (bi, bj, bs))"
        using Cons.prems(3) k1 k2 k0 False \<open>alo \<le> i\<close> \<open>i < ahi\<close> best
        by (auto simp: in_region_def)
      have "scan_row j2len i blo bhi js (new(j \<mapsto> k))
          (if k > bs then (i + 1 - k, j + 1 - k, k) else (bi, bj, bs)) = (new', best')"
        using Cons.prems(6) unfolding best k_def
        by (simp only: scan_row.simps nb False if_False Let_def)
      from Cons.IH[OF Cons.prems(1) new_ok best_ok Cons.prems(4,5) this] show ?thesis .
    qed
  qed
qed

lemma scan_rows_ok:
  assumes "j2len_ok (i0 - alo) blo bhi j2len" "in_region (alo, ahi, blo, bhi) best" "alo \<le> i0"
  shows "in_region (alo, ahi, blo, bhi) (scan_rows a b blo bhi [i0..<ahi] j2len best)"
  using assms
proof (induction "ahi - i0" arbitrary: i0 j2len best)
  case 0
  then show ?case by simp
next
  case (Suc n)
  then have lt: "i0 < ahi" by simp
  obtain new' best' where sr: "scan_row j2len i0 blo bhi (b2j b (a ! i0)) Map.empty best = (new', best')"
    by (cases "scan_row j2len i0 blo bhi (b2j b (a ! i0)) Map.empty best") auto
  have e: "j2len_ok (i0 + 1 - alo) blo bhi Map.empty" by (simp add: j2len_ok_def)
  from scan_row_ok[OF Suc.prems(1) e Suc.prems(2) Suc.prems(3) lt sr]
  have ok: "j2len_ok (Suc i0 - alo) blo bhi new'" "in_region (alo, ahi, blo, bhi) best'" by simp_all
  have "in_region (alo, ahi, blo, bhi) (scan_rows a b blo bhi [Suc i0..<ahi] new' best')"
    using Suc.hyps(1)[of "Suc i0" new' best'] Suc.hyps(2) ok Suc.prems(3) by simp
  then show ?case using lt sr by (simp add: upt_rec[of i0 ahi])
qed

lemma extend_down_ok:
  "in_region (alo, ahi, blo, bhi) m \<Longrightarrow> in_region (alo, ahi, blo, bhi) (extend_down a b alo blo m)"
proof (induction a b alo blo m rule: extend_down.induct)
  case (1 a b alo blo besti bestj bestsize)
  show ?case
  proof (cases "besti > alo \<and> bestj > blo \<and> a ! (besti - 1) = b ! (bestj - 1)")
    case True
    have "in_region (alo, ahi, blo, bhi) (besti - 1, bestj - 1, bestsize + 1)"
      using 1(2) True by (auto simp: in_region_def)
    from 1(1)[OF True this] True show ?thesis by (subst extend_down.simps) simp
  next
    case False
    with 1(2) show ?thesis by (subst extend_down.simps) auto
  qed
qed

lemma extend_up_ok:
  "in_region (alo, ahi, blo, bhi) m \<Longrightarrow> in_region (alo, ahi, blo, bhi) (extend_up a b ahi bhi m)"
proof (induction a b ahi bhi m rule: extend_up.induct)
  case (1 a b ahi bhi besti bestj bestsize)
  show ?case
  proof (cases "besti + bestsize < ahi \<and> bestj + bestsize < bhi
         \<and> a ! (besti + bestsize) = b ! (bestj + bestsize)")
    case True
    have "in_region (alo, ahi, blo, bhi) (besti, bestj, bestsize + 1)"
      using 1(2) True by (auto simp: in_region_def)
    from 1(1)[OF True this] True show ?thesis by (subst extend_up.simps) simp
  next
    case False
    with 1(2) show ?thesis by (subst extend_up.simps) auto
  qed
qed

lemma find_longest_match_in_region:
  "in_region (alo, ahi, blo, bhi) (find_longest_match a b alo ahi blo bhi)"
  unfolding find_longest_match_def
  by (intro extend_up_ok extend_down_ok scan_rows_ok) (simp_all add: in_region_def j2len_ok_def)

lemma find_longest_match_bounds:
  assumes "find_longest_match a b alo ahi blo bhi = (i, j, k)" "k \<noteq> 0"
  shows "alo \<le> i" "i + k \<le> ahi" "blo \<le> j" "j + k \<le> bhi"
  using find_longest_match_in_region[of alo ahi blo bhi a b] assms
  by (auto simp: in_region_def)

text \<open>
  \<open>get_matching_blocks\<close>. The queue is a stack (\<open>append\<close> and \<open>pop\<close> at the same end);
  its top is the head of the list here.
\<close>

function match_loop :: "'a list \<Rightarrow> 'a list \<Rightarrow> region list \<Rightarrow> match list \<Rightarrow> match list" where
  "match_loop a b [] matching_blocks = matching_blocks"
| "match_loop a b ((alo, ahi, blo, bhi) # queue) matching_blocks =
     (case find_longest_match a b alo ahi blo bhi of
        (i, j, k) \<Rightarrow>
          if k \<noteq> 0
          then match_loop a b
                 ((if i + k < ahi \<and> j + k < bhi then [(i + k, ahi, j + k, bhi)] else [])
                  @ (if alo < i \<and> blo < j then [(alo, i, blo, j)] else [])
                  @ queue)
                 (matching_blocks @ [(i, j, k)])
          else match_loop a b queue matching_blocks)"
  by pat_completeness auto
termination
  apply (relation "measure (\<lambda>(a, b, queue, blocks).
          sum_list (map (\<lambda>(alo, ahi, blo, bhi). 2 * (ahi - alo) + 1) queue))")
    apply simp
   apply (auto dest: find_longest_match_bounds [OF sym])
  done

fun collapse :: "match \<Rightarrow> match list \<Rightarrow> match list" where
  "collapse (i1, j1, k1) [] = (if k1 \<noteq> 0 then [(i1, j1, k1)] else [])"
| "collapse (i1, j1, k1) ((i2, j2, k2) # blocks) =
     (if i1 + k1 = i2 \<and> j1 + k1 = j2 then collapse (i1, j1, k1 + k2) blocks
      else (if k1 \<noteq> 0 then [(i1, j1, k1)] else []) @ collapse (i2, j2, k2) blocks)"

definition get_matching_blocks :: "'a list \<Rightarrow> 'a list \<Rightarrow> match list" where
  "get_matching_blocks a b =
     collapse (0, 0, 0) (sort (match_loop a b [(0, length a, 0, length b)] []))
     @ [(length a, length b, 0)]"

text \<open>\<open>get_opcodes\<close>: the loop over the matching blocks, from the position \<open>(i, j)\<close>.\<close>

fun opcodes_from :: "nat \<Rightarrow> nat \<Rightarrow> match list \<Rightarrow> opcode list" where
  "opcodes_from i j [] = []"
| "opcodes_from i j ((ai, bj, n) # blocks) =
     (if i < ai \<and> j < bj then [(Replace, i, ai, j, bj)]
      else if i < ai then [(Delete, i, ai, j, bj)]
      else if j < bj then [(Insert, i, ai, j, bj)]
      else [])
     @ (if n \<noteq> 0 then [(Equal, ai, ai + n, bj, bj + n)] else [])
     @ opcodes_from (ai + n) (bj + n) blocks"

definition get_opcodes :: "'a list \<Rightarrow> 'a list \<Rightarrow> opcode list" where
  "get_opcodes a b = opcodes_from 0 0 (get_matching_blocks a b)"

text \<open>
  \<open>get_grouped_opcodes(n)\<close>: the leading and the trailing equal range are cut to \<open>n\<close>
  lines, and an equal range of more than \<open>2 * n\<close> lines ends one group and starts the
  next. A group holding a single equal range is not yielded.
\<close>

fun fix_first :: "nat \<Rightarrow> opcode list \<Rightarrow> opcode list" where
  "fix_first n ((Equal, i1, i2, j1, j2) # codes) =
     (Equal, max i1 (i2 - n), i2, max j1 (j2 - n), j2) # codes"
| "fix_first n codes = codes"

fun fix_last :: "nat \<Rightarrow> opcode list \<Rightarrow> opcode list" where
  "fix_last n [] = []"
| "fix_last n [(tg, i1, i2, j1, j2)] =
     (if tg = Equal then [(tg, i1, min i2 (i1 + n), j1, min j2 (j1 + n))]
      else [(tg, i1, i2, j1, j2)])"
| "fix_last n (c # d # codes) = c # fix_last n (d # codes)"

fun group_loop :: "nat \<Rightarrow> opcode list \<Rightarrow> opcode list \<Rightarrow> opcode list list" where
  "group_loop n [] grp =
     (if grp \<noteq> [] \<and> \<not> (length grp = 1 \<and> fst (hd grp) = Equal) then [grp] else [])"
| "group_loop n ((tg, i1, i2, j1, j2) # codes) grp =
     (if tg = Equal \<and> i2 - i1 > n + n
      then (grp @ [(tg, i1, min i2 (i1 + n), j1, min j2 (j1 + n))])
           # group_loop n codes [(tg, max i1 (i2 - n), i2, max j1 (j2 - n), j2)]
      else group_loop n codes (grp @ [(tg, i1, i2, j1, j2)]))"

definition get_grouped_opcodes :: "nat \<Rightarrow> 'a list \<Rightarrow> 'a list \<Rightarrow> opcode list list" where
  "get_grouped_opcodes n a b =
     (let codes = get_opcodes a b;
          codes = (if codes = [] then [(Equal, 0, 1, 0, 1)] else codes)
      in group_loop n (fix_last n (fix_first n codes)) [])"

text \<open>
  \<open>unified_diff(a, b, fromfile, tofile, lineterm='')\<close> with the default \<open>n = 3\<close> and no
  file dates: the two file lines once, before the first group, then for each group its
  range line and its lines, marked \<open>' '\<close>, \<open>'-'\<close> or \<open>'+'\<close>.
\<close>

definition slice :: "'a list \<Rightarrow> nat \<Rightarrow> nat \<Rightarrow> 'a list" where
  "slice xs i1 i2 = drop i1 (take i2 xs)"

definition format_range_unified :: "nat \<Rightarrow> nat \<Rightarrow> string" where
  "format_range_unified start stop =
     (let beginning = start + 1; len = stop - start
      in if len = 1 then str_nat beginning
         else if len = 0 then str_nat (beginning - 1) @ '','' @ str_nat len
         else str_nat beginning @ '','' @ str_nat len)"

fun opcode_lines :: "string list \<Rightarrow> string list \<Rightarrow> opcode \<Rightarrow> string list" where
  "opcode_lines a b (tg, i1, i2, j1, j2) =
     (if tg = Equal then map (\<lambda>line. '' '' @ line) (slice a i1 i2)
      else (if tg = Replace \<or> tg = Delete then map (\<lambda>line. ''-'' @ line) (slice a i1 i2) else [])
           @ (if tg = Replace \<or> tg = Insert then map (\<lambda>line. ''+'' @ line) (slice b j1 j2) else []))"

fun range_line :: "opcode list \<Rightarrow> string" where
  "range_line [] = []"
| "range_line (c # grp) =
     (case (c, last (c # grp)) of
        ((t1, i1, i2, j1, j2), (t2, i1', i2', j1', j2')) \<Rightarrow>
          ''@@ -'' @ format_range_unified i1 i2' @ '' +'' @ format_range_unified j1 j2' @ '' @@'')"

definition group_lines :: "string list \<Rightarrow> string list \<Rightarrow> opcode list \<Rightarrow> string list" where
  "group_lines a b grp = range_line grp # concat (map (opcode_lines a b) grp)"

definition unified_diff :: "string list \<Rightarrow> string list \<Rightarrow> string \<Rightarrow> string \<Rightarrow> string list" where
  "unified_diff a b fromfile tofile =
     (case get_grouped_opcodes 3 a b of
        [] \<Rightarrow> []
      | groups \<Rightarrow> [''--- '' @ fromfile, ''+++ '' @ tofile] @ concat (map (group_lines a b) groups))"

section \<open>Logging and exceptions\<close>

text \<open>
  An exception is a value carrying its message; the records handed to the module's
  \<open>logger\<close> are returned by the functions that log.
\<close>

datatype exn = Exception string

fun str_exn :: "exn \<Rightarrow> string" where
  "str_exn (Exception msg) = msg"

datatype log_level = INFO | WARNING | ERROR

type_synonym log_record = "log_level \<times> string"

section \<open>Masking: \<open>DocumentProcessor.mask_pii\<close>\<close>

text \<open>
  The analyzer's results (\<open>RecognizerResult\<close>: entity type, offsets, score) and the
  operator configuration built for each entity type. \<open>span_source\<close> records whether a
  span came from a pattern recognizer or from the statistical model.
\<close>

datatype span_source = Pattern | Statistical

record RecognizerResult =
  entity_type :: string
  span_start :: nat
  span_end :: nat
  score :: real
  source :: span_source

record OperatorConfig =
  operator_name :: string
  new_value :: string

text \<open>
  The two engines are objects of the Presidio library held by the processor:
  \<open>analyzer.analyze(text, language, entities, score_threshold)\<close> and
  \<open>anonymizer.anonymize(text, analyzer_results, operators).text\<close>. Either may raise.
\<close>

type_synonym analyzer = "string \<Rightarrow> string \<Rightarrow> string list \<Rightarrow> real \<Rightarrow> exn + RecognizerResult list"
type_synonym anonymizer =
  "string \<Rightarrow> RecognizerResult list \<Rightarrow> (string \<rightharpoonup> OperatorConfig) \<Rightarrow> exn + string"

definition ENTITIES :: "string list" where
  "ENTITIES = [''PERSON'', ''EMAIL_ADDRESS'', ''PHONE_NUMBER'', ''SSN'',
               ''CREDIT_CARD'', ''LOCATION'', ''ORGANIZATION'', ''POLICY_NUMBER'']"

definition SCORE_THRESHOLD :: real where
  "SCORE_THRESHOLD = 6 / 10"

text \<open>The dict comprehension \<open>{r.entity_type: OperatorConfig("replace", ...) for r in results}\<close>.\<close>

definition replace_operator :: "RecognizerResult \<Rightarrow> OperatorConfig" where
  "replace_operator r =
     \<lparr>operator_name = ''replace'', new_value = ''<'' @ entity_type r @ ''>''\<rparr>"

definition make_ops :: "RecognizerResult list \<Rightarrow> (string \<rightharpoonup> OperatorConfig)" where
  "make_ops results = fold (\<lambda>r ops. ops(entity_type r \<mapsto> replace_operator r)) results Map.empty"

definition mask_error :: "exn \<Rightarrow> log_record" where
  "mask_error e = (ERROR, ''Error masking PII: '' @ str_exn e)"

definition mask_pii :: "analyzer \<Rightarrow> anonymizer \<Rightarrow> string \<Rightarrow> string \<times> log_record list" where
  "mask_pii analyze anonymize s =
     (case analyze s ''en'' ENTITIES SCORE_THRESHOLD of
        Inl e \<Rightarrow> (s, [mask_error e])
      | Inr results \<Rightarrow>
          (case anonymize s results (make_ops results) of
             Inl e \<Rightarrow> (s, [mask_error e])
           | Inr masked_text \<Rightarrow>
               (masked_text,
                [(INFO, ''Masked '' @ str_nat (length results) @ '' PII entities'')])))"

section \<open>The report: \<open>DocumentProcessor.process_directory\<close>\<close>

text \<open>
  \<open>parse_image\<close> runs the OCR engine (\<open>Image.open\<close> and \<open>pytesseract.image_to_string\<close>,
  here the parameter \<open>ocr\<close>, which may raise) and returns the empty string on failure.
  An image is given by its path; \<open>path_name\<close> is its final component.
\<close>

definition path_name :: "string \<Rightarrow> string" where
  "path_name p = rev (takeWhile (\<lambda>c. c \<noteq> CHR ''/'') (rev p))"

definition parse_image :: "(string \<Rightarrow> exn + string) \<Rightarrow> string \<Rightarrow> string \<times> log_record list" where
  "parse_image ocr image_path =
     (case ocr image_path of
        Inl e \<Rightarrow> ([], [(ERROR, ''Failed to parse '' @ image_path @ '': '' @ str_exn e)])
      | Inr s \<Rightarrow>
          (s, [(INFO, ''Parsed '' @ path_name image_path @ '': '' @ str_nat (length s)
                      @ '' characters'')]))"

definition compare_texts :: "string \<Rightarrow> string \<Rightarrow> string \<Rightarrow> string \<Rightarrow> string list" where
  "compare_texts text1 text2 name1 name2 =
     unified_diff (splitlines text1) (splitlines text2) name1 name2"

text \<open>
  The dict \<open>documents\<close> keeps its keys in insertion order; \<open>documents[k] = v\<close> replaces
  the value of a key already present and appends a new key.
\<close>

fun dict_set :: "('k \<times> 'v) list \<Rightarrow> 'k \<Rightarrow> 'v \<Rightarrow> ('k \<times> 'v) list" where
  "dict_set [] k v = [(k, v)]"
| "dict_set ((k', v') # d) k v = (if k' = k then (k', v) # d else (k', v') # dict_set d k v)"

text \<open>The loop \<open>for img in images: text = parse_image(img); if text: documents[img.name] = text\<close>.\<close>

fun parse_all ::
  "(string \<Rightarrow> exn + string) \<Rightarrow> string list \<Rightarrow> (string \<times> string) list \<Rightarrow> log_record list
     \<Rightarrow> (string \<times> string) list \<times> log_record list" where
  "parse_all ocr [] documents lg = (documents, lg)"
| "parse_all ocr (img # images) documents lg =
     (case parse_image ocr img of
        (s, l) \<Rightarrow>
          parse_all ocr images
            (if s \<noteq> [] then dict_set documents (path_name img) s else documents) (lg @ l))"

text \<open>
  The two nested loops \<open>for i, name1 in enumerate(documents): for name2 in
  list(documents.keys())[i + 1:]\<close> visit these pairs, in this order; each name comes with
  the text stored under it.
\<close>

fun pairs :: "'a list \<Rightarrow> ('a \<times> 'a) list" where
  "pairs [] = []"
| "pairs (x # xs) = map (Pair x) xs @ pairs xs"

definition separator :: string where
  "separator = replicate 80 (CHR ''='')"

definition comparison_header :: "string \<Rightarrow> string \<Rightarrow> string" where
  "comparison_header name1 name2 =
     ''Comparison: '' @ name1 @ '' vs '' @ name2 @ [LF] @ separator @ [LF]"

definition diff_text_of :: "string list \<Rightarrow> string" where
  "diff_text_of diff =
     (if diff \<noteq> [] then ''Differences Found:'' @ [LF] @ join [LF] diff @ [LF]
      else ''No Differences Found'' @ [LF])"

definition section_end :: string where
  "section_end = [LF] @ separator @ [LF, LF]"

text \<open>
  One turn of the inner loop: the section appended to the unmasked report, the section
  appended to the masked report, and the records logged.
\<close>

definition compare_pair ::
  "analyzer \<Rightarrow> anonymizer \<Rightarrow> (string \<times> string) \<times> (string \<times> string)
     \<Rightarrow> string \<times> string \<times> log_record list" where
  "compare_pair analyze anonymize p =
     (case p of ((name1, text1), (name2, text2)) \<Rightarrow>
        let diff = compare_texts text1 text2 name1 name2;
            diff_text = diff_text_of diff
        in case mask_pii analyze anonymize diff_text of
             (masked_diff, l) \<Rightarrow>
               (comparison_header name1 name2 @ diff_text @ section_end,
                comparison_header name1 name2 @ masked_diff @ section_end,
                (INFO, ''Comparing '' @ name1 @ '' with '' @ name2) # l))"

definition report_head :: "string \<Rightarrow> string" where
  "report_head generated =
     ''Document Comparison Report'' @ [LF] @ ''Generated: '' @ generated @ [LF, LF]"

text \<open>
  What a run leaves behind: the process exits with a status or returns, the files it
  wrote (name and content, in the order written) and the records logged.
\<close>

datatype outcome = Exited nat | Returned

record run =
  outcome :: outcome
  files :: "(string \<times> string) list"
  logged :: "log_record list"

definition masked_document ::
  "analyzer \<Rightarrow> anonymizer \<Rightarrow> string \<Rightarrow> string \<times> string
     \<Rightarrow> (string \<times> string) \<times> log_record list" where
  "masked_document analyze anonymize timestamp d =
     (case d of (name, s) \<Rightarrow>
        case mask_pii analyze anonymize s of
          (masked_text, l) \<Rightarrow>
            let doc_file = ''masked_'' @ name @ ''_'' @ timestamp @ ''.txt''
            in ((doc_file, masked_text),
                l @ [(INFO, ''Masked document saved to '' @ doc_file)]))"

text \<open>
  \<open>process_directory\<close>. \<open>is_dir\<close> and \<open>images\<close> stand for the file system: whether the
  input path is a directory, and the image paths found in it, sorted. \<open>timestamp\<close> and
  \<open>generated\<close> are the two renderings of the clock.
\<close>

definition process_directory ::
  "bool \<Rightarrow> string \<Rightarrow> string list \<Rightarrow> (string \<Rightarrow> exn + string) \<Rightarrow> analyzer \<Rightarrow> anonymizer
     \<Rightarrow> string \<Rightarrow> string \<Rightarrow> run" where
  "process_directory is_dir input_path images ocr analyze anonymize timestamp generated =
     (if \<not> is_dir
      then \<lparr>outcome = Exited 1, files = [],
            logged = [(ERROR, ''Invalid directory: '' @ input_path)]\<rparr>
      else
        let log1 = [(INFO, ''Found '' @ str_nat (length images) @ '' images'')]
        in if length images < 2
           then \<lparr>outcome = Returned, files = [],
                 logged = log1 @ [(WARNING, ''Need at least 2 images to compare'')]\<rparr>
           else
             case parse_all ocr images [] [] of
               (documents, log2) \<Rightarrow>
                 let compared = map (compare_pair analyze anonymize) (pairs documents);
                     unmasked_report = report_head generated # map fst compared;
                     masked_report = report_head generated # map (fst \<circ> snd) compared;
                     log3 = concat (map (snd \<circ> snd) compared);
                     unmasked_file = ''diff_report_'' @ timestamp @ ''.txt'';
                     masked_file = ''diff_report_masked_'' @ timestamp @ ''.txt'';
                     docs = map (masked_document analyze anonymize timestamp) documents
                 in \<lparr>outcome = Returned,
                     files = [(unmasked_file, concat unmasked_report),
                              (masked_file, concat masked_report)] @ map fst docs,
                     logged = log1 @ log2 @ log3
                       @ [(INFO, ''Unmasked report saved to '' @ unmasked_file),
                          (INFO, ''Masked report saved to '' @ masked_file)]
                       @ concat (map snd docs)\<rparr>)"

section \<open>Reading a report back: \<open>DiffReportProcessor.read_diff_file\<close>\<close>

text \<open>
  The function is the same in \<open>pii_sum_ollama.py\<close> and in \<open>pii_report_sum.py\<close>. A section
  is the dict with the keys \<open>comparison\<close>, \<open>header\<close> and \<open>diff\<close>.
\<close>

record report_section =
  comparison :: string
  header :: "string list"
  diff :: string

definition is_comparison :: "string \<Rightarrow> bool" where
  "is_comparison line \<longleftrightarrow> startswith line ''Comparison:''"

definition is_report_header :: "string \<Rightarrow> bool" where
  "is_report_header line \<longleftrightarrow>
     startswith line ''Document Comparison Report'' \<or> startswith line ''Generated:''"

definition close_section :: "report_section option \<Rightarrow> string list \<Rightarrow> report_section list" where
  "close_section current_section diff_lines =
     (case current_section of
        None \<Rightarrow> []
      | Some c \<Rightarrow> [c\<lparr>diff := join [LF] diff_lines\<rparr>])"

text \<open>
  The loop over \<open>content.splitlines()\<close>; its state is \<open>sections\<close>, \<open>current_section\<close>,
  \<open>diff_lines\<close> and \<open>header\<close>.
\<close>

fun read_loop ::
  "string list \<Rightarrow> report_section list \<Rightarrow> report_section option \<Rightarrow> string list \<Rightarrow> string list
     \<Rightarrow> report_section list \<times> report_section option \<times> string list" where
  "read_loop [] sections current_section diff_lines hdr = (sections, current_section, diff_lines)"
| "read_loop (line # lines) sections current_section diff_lines hdr =
     (if is_comparison line
      then read_loop lines (sections @ close_section current_section diff_lines)
             (Some \<lparr>comparison = line,
                    header = (if hdr \<noteq> [] then drop (length hdr - 2) hdr else []),
                    diff = []\<rparr>)
             [] hdr
      else if is_report_header line
      then read_loop lines sections current_section diff_lines (hdr @ [line])
      else if current_section \<noteq> None \<and> strip line \<noteq> []
      then read_loop lines sections current_section (diff_lines @ [line]) hdr
      else read_loop lines sections current_section diff_lines hdr)"

definition extract_sections :: "string \<Rightarrow> report_section list" where
  "extract_sections content =
     (case read_loop (splitlines content) [] None [] [] of
        (sections, current_section, diff_lines) \<Rightarrow>
          if current_section \<noteq> None \<and> diff_lines \<noteq> []
          then sections @ close_section current_section diff_lines
          else sections)"

text \<open>
  \<open>read_diff_file\<close>: the input file's content, or \<open>None\<close> when the path is not a file,
  in which case the process exits with status 1.
\<close>

definition read_diff_file :: "string option \<Rightarrow> nat + report_section list" where
  "read_diff_file input_file =
     (case input_file of
        None \<Rightarrow> Inl 1
      | Some content \<Rightarrow> Inr (extract_sections content))"

section \<open>The anonymizer of the specification\<close>

text \<open>
  Modelled from the spec: the Anonymizer of section 4.4, whose code is the Presidio
  library's and not among the repository's files. A span's substring is replaced by
  \<open>policy[entityType]\<close>, or by the literal \<open><entityType>\<close> when the policy has no entry
  for the type; the policy is the \<open>operators\<close> argument.
\<close>

definition placeholder :: "(string \<rightharpoonup> OperatorConfig) \<Rightarrow> RecognizerResult \<Rightarrow> string" where
  "placeholder ops r =
     (case ops (entity_type r) of
        Some cfg \<Rightarrow> new_value cfg
      | None \<Rightarrow> ''<'' @ entity_type r @ ''>'')"

definition replace_span :: "string \<Rightarrow> RecognizerResult \<Rightarrow> string \<Rightarrow> string" where
  "replace_span s r v = take (span_start r) s @ v @ drop (span_end r) s"

text \<open>
  Modelled from the spec: the spans are processed in descending order of \<open>start\<close> and
  replaced in place, with the offsets computed once against the original text.
\<close>

definition anonymize_spec :: anonymizer where
  "anonymize_spec s results ops =
     Inr (fold (\<lambda>r t. replace_span t r (placeholder ops r))
            (rev (sort_key span_start results)) s)"

text \<open>
  Modelled from the spec: a resolved span list (the output of section 4.3) is sorted by
  ascending \<open>start\<close> and no two of its spans overlap; its spans are non-empty ranges of
  offsets into the text, of length \<open>n\<close>. \<open>resolved_from pos n rs\<close> also says that no span
  starts before \<open>pos\<close>.
\<close>

fun resolved_from :: "nat \<Rightarrow> nat \<Rightarrow> RecognizerResult list \<Rightarrow> bool" where
  "resolved_from pos n [] = True"
| "resolved_from pos n (r # rs) =
     (pos \<le> span_start r \<and> span_start r < span_end r \<and> span_end r \<le> n
      \<and> resolved_from (span_end r) n rs)"

text \<open>
  The text with every span's substring replaced, written from left to right: the text
  from \<open>pos\<close> up to the first span, that span's replacement, and so on; the text after
  the last span is kept.
\<close>

fun spliced :: "(RecognizerResult \<Rightarrow> string) \<Rightarrow> nat \<Rightarrow> string \<Rightarrow> RecognizerResult list \<Rightarrow> string" where
  "spliced ph pos s [] = drop pos s"
| "spliced ph pos s (r # rs) =
     take (span_start r - pos) (drop pos s) @ ph r @ spliced ph (span_end r) s rs"

definition ascii_upper :: "char \<Rightarrow> char" where
  "ascii_upper c =
     (if (97 :: nat) \<le> of_char c \<and> of_char c \<le> (122 :: nat)
      then char_of (of_char c - (32 :: nat)) else c)"

section \<open>The custom patterns of \<open>_setup_presidio\<close>\<close>

text \<open>
  The six regular expressions are read as Python's \<open>re\<close> module reads them under the
  flags Presidio compiles a pattern with (\<open>DOTALL\<close>, \<open>MULTILINE\<close>, \<open>IGNORECASE\<close>). They
  are sequences of the items below: a character class once, optionally, or repeated
  (greedy or lazy), an optional literal, \<open>\b\<close>, and the lookahead \<open>(?=\n|$)\<close>. A match is
  found by backtracking, each item trying its alternatives in Python's order.
\<close>

datatype atom =
    One "char \<Rightarrow> bool"
  | Opt "char \<Rightarrow> bool"
  | Star "char \<Rightarrow> bool"
  | Plus "char \<Rightarrow> bool"
  | LazyPlus "char \<Rightarrow> bool"
  | OptLit "(char \<Rightarrow> bool) list"
  | WordBoundary
  | AtLineEnd

text \<open>The classes \<open>\w\<close>, \<open>\d\<close>, \<open>[A-Za-z]\<close> (\<open>\s\<close> is \<open>is_space\<close>) and a letter under \<open>IGNORECASE\<close>.\<close>

definition in_range :: "nat \<Rightarrow> nat \<Rightarrow> char \<Rightarrow> bool" where
  "in_range lo hi c \<longleftrightarrow> lo \<le> of_char c \<and> of_char c \<le> hi"

definition is_digit :: "char \<Rightarrow> bool" where
  "is_digit c \<longleftrightarrow> in_range 0x30 0x39 c"

definition is_letter :: "char \<Rightarrow> bool" where
  "is_letter c \<longleftrightarrow> in_range 0x41 0x5A c \<or> in_range 0x61 0x7A c"

definition is_word :: "char \<Rightarrow> bool" where
  "is_word c \<longleftrightarrow>
     is_digit c \<or> is_letter c \<or> c = CHR ''_'' \<or> c = CHR 0xAA \<or> in_range 0xB2 0xB3 c
     \<or> c = CHR 0xB5 \<or> in_range 0xB9 0xBA c \<or> in_range 0xBC 0xBE c \<or> in_range 0xC0 0xD6 c
     \<or> in_range 0xD8 0xF6 c \<or> in_range 0xF8 0xFF c"

definition ci :: "char \<Rightarrow> char \<Rightarrow> bool" where
  "ci l c \<longleftrightarrow> ascii_upper c = ascii_upper l"

definition lit :: "string \<Rightarrow> (char \<Rightarrow> bool) list" where
  "lit s = map ci s"

fun first_of :: "'a option list \<Rightarrow> 'a option" where
  "first_of [] = None"
| "first_of (None # xs) = first_of xs"
| "first_of (Some x # xs) = Some x"

definition run :: "(char \<Rightarrow> bool) \<Rightarrow> string \<Rightarrow> nat \<Rightarrow> nat" where
  "run p s i = length (takeWhile p (drop i s))"

definition word_boundary :: "string \<Rightarrow> nat \<Rightarrow> bool" where
  "word_boundary s i \<longleftrightarrow>
     (0 < i \<and> i \<le> length s \<and> is_word (s ! (i - 1))) \<noteq> (i < length s \<and> is_word (s ! i))"

definition lit_at :: "(char \<Rightarrow> bool) list \<Rightarrow> string \<Rightarrow> nat \<Rightarrow> bool" where
  "lit_at ps s i \<longleftrightarrow>
     i + length ps \<le> length s \<and> list_all2 (\<lambda>p c. p c) ps (take (length ps) (drop i s))"

text \<open>\<open>match_at re s i\<close>: where the match that starts at \<open>i\<close> ends, if there is one.\<close>

fun match_at :: "atom list \<Rightarrow> string \<Rightarrow> nat \<Rightarrow> nat option" where
  "match_at [] s i = Some i"
| "match_at (One p # re) s i =
     (if i < length s \<and> p (s ! i) then match_at re s (i + 1) else None)"
| "match_at (Opt p # re) s i =
     first_of [if i < length s \<and> p (s ! i) then match_at re s (i + 1) else None,
               match_at re s i]"
| "match_at (Star p # re) s i =
     first_of (map (\<lambda>k. match_at re s (i + k)) (rev [0..<Suc (run p s i)]))"
| "match_at (Plus p # re) s i =
     first_of (map (\<lambda>k. match_at re s (i + k)) (rev [1..<Suc (run p s i)]))"
| "match_at (LazyPlus p # re) s i =
     first_of (map (\<lambda>k. match_at re s (i + k)) [1..<Suc (run p s i)])"
| "match_at (OptLit ps # re) s i =
     first_of [if lit_at ps s i then match_at re s (i + length ps) else None,
               match_at re s i]"
| "match_at (WordBoundary # re) s i =
     (if word_boundary s i then match_at re s i else None)"
| "match_at (AtLineEnd # re) s i =
     (if i = length s \<or> s ! i = LF then match_at re s i else None)"

text \<open>
  The matches in the text from \<open>pos\<close> on, left to right and not overlapping, as
  \<open>finditer\<close> yields them; an empty match is skipped.
\<close>

function find_from :: "atom list \<Rightarrow> string \<Rightarrow> nat \<Rightarrow> (nat \<times> nat) list" where
  "find_from re s pos =
     (if pos > length s then []
      else case match_at re s pos of
             Some e \<Rightarrow> if e > pos then (pos, e) # find_from re s e
                       else find_from re s (pos + 1)
           | None \<Rightarrow> find_from re s (pos + 1))"
  by pat_completeness auto
termination
  by (relation "measure (\<lambda>(re, s, pos). length s + 1 - pos)") auto

declare find_from.simps [simp del]

record PatternDefinition =
  pattern_name :: string
  regex :: "atom list"
  base_score :: real

record PatternRecognizer =
  supported_entity :: string
  patterns :: "PatternDefinition list"
  context_words :: "string list"

definition ssn_pattern :: PatternDefinition where
  "ssn_pattern = \<lparr>pattern_name = ''SSN_PATTERN'',
     regex = [WordBoundary, One is_digit, One is_digit, One is_digit, One (\<lambda>c. c = CHR ''-''),
              One is_digit, One is_digit, One (\<lambda>c. c = CHR ''-''),
              One is_digit, One is_digit, One is_digit, One is_digit, WordBoundary],
     base_score = 9 / 10\<rparr>"

definition phone_pattern :: PatternDefinition where
  "phone_pattern = \<lparr>pattern_name = ''PHONE_PATTERN'',
     regex = [Opt (\<lambda>c. c = CHR ''(''), One is_digit, One is_digit, One is_digit,
              Opt (\<lambda>c. c = CHR '')''), Opt (\<lambda>c. is_space c \<or> c = CHR ''-''),
              One is_digit, One is_digit, One is_digit, One (\<lambda>c. c = CHR ''-''),
              One is_digit, One is_digit, One is_digit, One is_digit, WordBoundary],
     base_score = 95 / 100\<rparr>"

definition email_pattern :: PatternDefinition where
  "email_pattern = \<lparr>pattern_name = ''EMAIL_PATTERN'',
     regex = [WordBoundary, Plus (\<lambda>c. is_word c \<or> c = CHR ''.'' \<or> c = CHR ''-''),
              One (\<lambda>c. c = CHR ''@'' \<or> is_space c),
              Plus (\<lambda>c. is_word c \<or> c = CHR ''.'' \<or> c = CHR ''-''),
              One (\<lambda>c. c = CHR ''.''), Plus is_word, WordBoundary],
     base_score = 8 / 10\<rparr>"

definition email_structured_pattern :: PatternDefinition where
  "email_structured_pattern = \<lparr>pattern_name = ''EMAIL_STRUCTURED_PATTERN'',
     regex = [One (\<lambda>c. c = CHR ''['' \<or> c = CHR ''(''), OptLit (lit ''mailto:''), Star is_space,
              Plus (\<lambda>c. is_word c \<or> c = CHR ''.'' \<or> c = CHR ''-''), One (\<lambda>c. c = CHR ''@''),
              Plus (\<lambda>c. is_word c \<or> c = CHR ''.'' \<or> c = CHR ''-''),
              One (\<lambda>c. c = CHR ''.''), Plus is_word, Star is_space,
              One (\<lambda>c. c = CHR '']'' \<or> c = CHR '')'')],
     base_score = 1\<rparr>"

definition name_pattern :: PatternDefinition where
  "name_pattern = \<lparr>pattern_name = ''NAME_PATTERN'',
     regex = map One (lit ''Name:'')
             @ [Star is_space, LazyPlus (\<lambda>c. is_letter c \<or> is_space c \<or> c = CHR ''.''),
                Star is_space, AtLineEnd],
     base_score = 1\<rparr>"

definition policy_pattern :: PatternDefinition where
  "policy_pattern = \<lparr>pattern_name = ''POLICY_PATTERN'',
     regex = map One (lit ''Insurance Policy Number:'') @ [Star is_space]
             @ map One (lit ''IN-'')
             @ [One is_digit, One is_digit, One is_digit, One is_digit,
                One is_digit, One is_digit, One is_digit, One is_digit, WordBoundary],
     base_score = 1\<rparr>"

definition custom_recognizers :: "PatternRecognizer list" where
  "custom_recognizers =
     [\<lparr>supported_entity = ''SSN'', patterns = [ssn_pattern],
        context_words = [''SSN'', ''Social Security'', ''ID'']\<rparr>,
      \<lparr>supported_entity = ''PHONE_NUMBER'', patterns = [phone_pattern],
        context_words = [''Phone'', ''Contact'', ''Emergency'', ''Telephone'']\<rparr>,
      \<lparr>supported_entity = ''EMAIL_ADDRESS'', patterns = [email_pattern, email_structured_pattern],
        context_words = [''email'', ''e-mail'', ''mailto'']\<rparr>,
      \<lparr>supported_entity = ''PERSON'', patterns = [name_pattern],
        context_words = [''Name'', ''Patient'']\<rparr>,
      \<lparr>supported_entity = ''POLICY_NUMBER'', patterns = [policy_pattern],
        context_words = [''Insurance'', ''Policy'']\<rparr>]"

text \<open>
  Modelled from the spec: the Pattern Recognizer Set of section 4.2, whose code is the
  Presidio library's. Every match of every pattern gives a span of the recognizer's
  entity type over the whole match, with the pattern's base score. The boost for a
  context keyword near the match, which only raises a score, is left out.
\<close>

definition pattern_spans :: "string \<Rightarrow> PatternRecognizer \<Rightarrow> RecognizerResult list" where
  "pattern_spans s rec =
     concat (map (\<lambda>p. map (\<lambda>(b, e). \<lparr>entity_type = supported_entity rec, span_start = b,
                                      span_end = e, score = base_score p, source = Pattern\<rparr>)
                        (find_from (regex p) s 0))
                 (patterns rec))"

definition detect_all :: "string \<Rightarrow> RecognizerResult list" where
  "detect_all s = concat (map (pattern_spans s) custom_recognizers)"

section \<open>The analyzer of the specification\<close>

text \<open>
  Modelled from the spec: Entity Merge and Resolution, section 4.3, whose code is the
  Presidio library's. Step 1 drops every span with \<open>score < scoreThreshold\<close>.
\<close>

definition above_threshold :: "real \<Rightarrow> RecognizerResult list \<Rightarrow> RecognizerResult list" where
  "above_threshold score_threshold spans = filter (\<lambda>r. \<not> score r < score_threshold) spans"

text \<open>
  Modelled from the spec: step 2 groups the remaining spans by overlapping offset
  ranges. The spans are taken in the order of their starts; a span joins the current
  group when it starts before the largest end seen in the group, and opens a new group
  otherwise. A group is its first span and the spans that joined it.
\<close>

fun groups_from ::
  "RecognizerResult \<Rightarrow> RecognizerResult list \<Rightarrow> nat \<Rightarrow> RecognizerResult list
     \<Rightarrow> (RecognizerResult \<times> RecognizerResult list) list" where
  "groups_from g grp hi [] = [(g, grp)]"
| "groups_from g grp hi (r # rs) =
     (if span_start r < hi then groups_from g (grp @ [r]) (max hi (span_end r)) rs
      else (g, grp) # groups_from r [] (span_end r) rs)"

definition overlap_groups ::
  "RecognizerResult list \<Rightarrow> (RecognizerResult \<times> RecognizerResult list) list" where
  "overlap_groups spans =
     (case sort_key span_start spans of
        [] \<Rightarrow> []
      | r # rs \<Rightarrow> groups_from r [] (span_end r) rs)"

text \<open>
  Modelled from the spec: step 3 keeps one span of each group, the one with the highest
  score; ties are broken by preferring a pattern-sourced span to a statistical one, then
  by the earliest start.
\<close>

definition better :: "RecognizerResult \<Rightarrow> RecognizerResult \<Rightarrow> bool" where
  "better a b \<longleftrightarrow>
     score b < score a
     \<or> (score a = score b
        \<and> (source a = Pattern \<and> source b = Statistical
           \<or> (source a = source b \<and> span_start a < span_start b)))"

fun best_of :: "RecognizerResult \<Rightarrow> RecognizerResult list \<Rightarrow> RecognizerResult" where
  "best_of b [] = b"
| "best_of b (r # rs) = best_of (if better r b then r else b) rs"

text \<open>Modelled from the spec: step 4 returns the spans kept, in the order of their starts.\<close>

definition resolve :: "real \<Rightarrow> RecognizerResult list \<Rightarrow> RecognizerResult list" where
  "resolve score_threshold spans =
     map (\<lambda>(g, grp). best_of g grp) (overlap_groups (above_threshold score_threshold spans))"

text \<open>
  Modelled from the spec: the analyzer resolves the union of the pattern recognizers'
  spans and the spans of the statistical recognizer, an external collaborator and here
  the parameter \<open>statistical\<close>. Only the entity types asked for are looked for, as the
  call in \<open>mask_pii\<close> names them.
\<close>

definition analyze_spec :: "(string \<Rightarrow> RecognizerResult list) \<Rightarrow> analyzer" where
  "analyze_spec statistical s language entities score_threshold =
     Inr (resolve score_threshold
            (filter (\<lambda>r. entity_type r \<in> set entities) (detect_all s @ statistical s)))"

section \<open>Masking fails open\<close>

text \<open>
  C1. Whenever the analyzer or the anonymizer raises, \<open>mask_pii\<close> returns the input
  text itself, unchanged, and returns normally: the exception becomes one record at
  level ERROR carrying the exception's message.
\<close>

theorem mask_pii_fails_open:
  assumes "analyze s ''en'' ENTITIES SCORE_THRESHOLD = Inl e
           \<or> (\<exists>results. analyze s ''en'' ENTITIES SCORE_THRESHOLD = Inr results
                \<and> anonymize s results (make_ops results) = Inl e)"
  shows "mask_pii analyze anonymize s = (s, [(ERROR, ''Error masking PII: '' @ str_exn e)])"
  using assms by (auto simp: mask_pii_def mask_error_def)

theorem mask_pii_fails_open_witness:
  "mask_pii (\<lambda>s l es th. Inl (Exception ''model not loaded'')) (\<lambda>s rs ops. Inr ''unused'')
     ''SSN: 123-45-6789''
   = (''SSN: 123-45-6789'', [(ERROR, ''Error masking PII: model not loaded'')])"
  using mask_pii_fails_open
    [of "\<lambda>s l es th. Inl (Exception ''model not loaded'')" "''SSN: 123-45-6789''"
        "Exception ''model not loaded''" "\<lambda>s rs ops. Inr ''unused''"]
  by simp


section \<open>Which documents are compared\<close>

text \<open>
  The documents a run compares, in the claim's words: the images whose extracted text
  is not empty, each under its file name, in the order of the images.
\<close>

definition extracted :: "(string \<Rightarrow> exn + string) \<Rightarrow> string list \<Rightarrow> (string \<times> string) list" where
  "extracted ocr images =
     map (\<lambda>img. (path_name img, fst (parse_image ocr img)))
       (filter (\<lambda>img. fst (parse_image ocr img) \<noteq> []) images)"

lemma parse_image_text:
  "fst (parse_image ocr img) = (case ocr img of Inl e \<Rightarrow> [] | Inr s \<Rightarrow> s)"
  by (simp add: parse_image_def split: sum.splits)

lemma dict_set_fresh: "k \<notin> fst ` set d \<Longrightarrow> dict_set d k v = d @ [(k, v)]"
  by (induction d) auto

lemma parse_all_documents:
  assumes "distinct (map path_name images)" "fst ` set documents \<inter> path_name ` set images = {}"
  shows "fst (parse_all ocr images documents lg) = documents @ extracted ocr images"
  using assms
proof (induction images arbitrary: documents lg)
  case Nil
  then show ?case by (simp add: extracted_def)
next
  case (Cons img images)
  obtain s l where pi: "parse_image ocr img = (s, l)" by (cases "parse_image ocr img") auto
  show ?case
  proof (cases "s = []")
    case True
    with Cons pi show ?thesis by (auto simp: extracted_def)
  next
    case False
    have fresh: "path_name img \<notin> fst ` set documents" using Cons.prems(2) by auto
    have d: "fst ` set (documents @ [(path_name img, s)]) \<inter> path_name ` set images = {}"
      using Cons.prems by auto
    from Cons.IH[OF _ d] Cons.prems(1) False pi fresh show ?thesis
      by (simp add: dict_set_fresh extracted_def)
  qed
qed

lemma pairs_mem:
  "(x, y) \<in> set (pairs xs) \<longleftrightarrow> (\<exists>us vs ws. xs = us @ x # vs @ y # ws)"
proof (induction xs)
  case Nil
  then show ?case by simp
next
  case (Cons a xs)
  note IH = Cons.IH
  show ?case
  proof
    assume "(x, y) \<in> set (pairs (a # xs))"
    then consider "x = a" "y \<in> set xs" | "(x, y) \<in> set (pairs xs)" by auto
    then show "\<exists>us vs ws. a # xs = us @ x # vs @ y # ws"
    proof cases
      case 1
      then obtain vs ws where "xs = vs @ y # ws" by (meson split_list)
      with 1 have "a # xs = [] @ x # vs @ y # ws" by simp
      then show ?thesis by blast
    next
      case 2
      with IH obtain us vs ws where "xs = us @ x # vs @ y # ws" by blast
      then have "a # xs = (a # us) @ x # vs @ y # ws" by simp
      then show ?thesis by blast
    qed
  next
    assume "\<exists>us vs ws. a # xs = us @ x # vs @ y # ws"
    then obtain us vs ws where e: "a # xs = us @ x # vs @ y # ws" by blast
    show "(x, y) \<in> set (pairs (a # xs))"
    proof (cases us)
      case Nil
      with e show ?thesis by auto
    next
      case (Cons u us')
      with e have "xs = us' @ x # vs @ y # ws" by simp
      with IH have "(x, y) \<in> set (pairs xs)" by blast
      then show ?thesis by simp
    qed
  qed
qed

lemma pairs_complete:
  assumes "x \<in> set xs" "y \<in> set xs" "x \<noteq> y"
  shows "(x, y) \<in> set (pairs xs) \<or> (y, x) \<in> set (pairs xs)"
  using assms
proof (induction xs)
  case Nil
  then show ?case by simp
next
  case (Cons a xs)
  then show ?case by (cases "x = a"; cases "y = a") auto
qed

lemma extracted_mem:
  "(n, s) \<in> set (extracted ocr images) \<longleftrightarrow>
     s \<noteq> [] \<and> (\<exists>img \<in> set images. n = path_name img \<and> ocr img = Inr s)"
proof -
  have "(n, s) \<in> set (extracted ocr images) \<longleftrightarrow>
     (\<exists>img \<in> set images. fst (parse_image ocr img) \<noteq> [] \<and> n = path_name img
        \<and> s = fst (parse_image ocr img))"
    unfolding extracted_def by (simp add: image_iff) blast
  also have "\<dots> \<longleftrightarrow> s \<noteq> [] \<and> (\<exists>img \<in> set images. n = path_name img \<and> ocr img = Inr s)"
  proof -
    have "fst (parse_image ocr img) \<noteq> [] \<and> s = fst (parse_image ocr img)
          \<longleftrightarrow> s \<noteq> [] \<and> ocr img = Inr s" for img
      by (cases "ocr img") (auto simp: parse_image_text)
    then show ?thesis by blast
  qed
  finally show ?thesis .
qed

lemma unmasked_report_file:
  assumes "2 \<le> length images"
  shows "hd (files (process_directory True dir images ocr analyze anonymize timestamp generated))
        = (''diff_report_'' @ timestamp @ ''.txt'',
           report_head generated
           @ concat (map (fst \<circ> compare_pair analyze anonymize)
               (pairs (fst (parse_all ocr images [] [])))))"
proof (cases "parse_all ocr images [] []")
  case (Pair documents log2)
  with assms show ?thesis
    by (simp add: process_directory_def Let_def)
qed

text \<open>
  C6 fails as stated: \<open>parse_image\<close> reports a failed extraction by the empty string,
  and the guard \<open>if text:\<close> drops every empty text, also one the OCR engine returned
  without failing. Here the second image is read as the empty string: it is not
  among the documents, and the only comparison made is of the first and the third.
\<close>

theorem empty_text_is_excluded:
  "(\<lambda>p. if p = ''in/a.png'' then Inr ''x'' else if p = ''in/b.png'' then Inr ''''
         else Inr ''y'') ''in/b.png'' = (Inr '''' :: exn + string)
   \<and> map (\<lambda>(d1, d2). (fst d1, fst d2))
        (pairs (fst (parse_all
           (\<lambda>p. if p = ''in/a.png'' then Inr ''x'' else if p = ''in/b.png'' then Inr ''''
                 else Inr ''y'')
           [''in/a.png'', ''in/b.png'', ''in/c.png''] [] [])))
     = [(''a.png'', ''c.png'')]"
  by (simp add: parse_image_def path_name_def)

text \<open>
  C6, amended. For images with distinct file names, the documents of a run are exactly
  the images whose extracted text is not empty (a text the OCR engine returned, not the
  empty string), the unmasked report holds one section for each pair of them, and any
  two of them are compared with each other.
\<close>

theorem nonempty_documents_are_compared:
  assumes "distinct (map path_name images)" "2 \<le> length images"
  shows "fst (parse_all ocr images [] []) = extracted ocr images
    \<and> (\<forall>n s. (n, s) \<in> set (extracted ocr images) \<longleftrightarrow>
          s \<noteq> [] \<and> (\<exists>img \<in> set images. n = path_name img \<and> ocr img = Inr s))
    \<and> hd (files (process_directory True dir images ocr analyze anonymize timestamp generated))
        = (''diff_report_'' @ timestamp @ ''.txt'',
           report_head generated
           @ concat (map (fst \<circ> compare_pair analyze anonymize) (pairs (extracted ocr images))))
    \<and> (\<forall>d1 \<in> set (extracted ocr images). \<forall>d2 \<in> set (extracted ocr images). d1 \<noteq> d2 \<longrightarrow>
          (d1, d2) \<in> set (pairs (extracted ocr images))
          \<or> (d2, d1) \<in> set (pairs (extracted ocr images)))"
proof -
  have docs: "fst (parse_all ocr images [] []) = extracted ocr images"
    using parse_all_documents[OF assms(1), of "[]" ocr "[]"] by simp
  have rep: "hd (files (process_directory True dir images ocr analyze anonymize timestamp generated))
        = (''diff_report_'' @ timestamp @ ''.txt'',
           report_head generated
           @ concat (map (fst \<circ> compare_pair analyze anonymize) (pairs (extracted ocr images))))"
    using unmasked_report_file[OF assms(2)] docs by simp
  show ?thesis
  proof (intro conjI allI ballI impI)
    show "fst (parse_all ocr images [] []) = extracted ocr images" by (rule docs)
  next
    fix n s
    show "(n, s) \<in> set (extracted ocr images) \<longleftrightarrow>
          s \<noteq> [] \<and> (\<exists>img \<in> set images. n = path_name img \<and> ocr img = Inr s)"
      by (rule extracted_mem)
  next
    show "hd (files (process_directory True dir images ocr analyze anonymize timestamp generated))
        = (''diff_report_'' @ timestamp @ ''.txt'',
           report_head generated
           @ concat (map (fst \<circ> compare_pair analyze anonymize) (pairs (extracted ocr images))))"
      by (rule rep)
  next
    fix d1 d2
    assume "d1 \<in> set (extracted ocr images)" "d2 \<in> set (extracted ocr images)" "d1 \<noteq> d2"
    then show "(d1, d2) \<in> set (pairs (extracted ocr images))
          \<or> (d2, d1) \<in> set (pairs (extracted ocr images))"
      by (rule pairs_complete)
  qed
qed

theorem nonempty_documents_are_compared_witness:
  "fst (parse_all (\<lambda>p. if p = ''in/a.png'' then Inr ''x'' else if p = ''in/b.png'' then Inr ''''
                        else Inr ''y'')
          [''in/a.png'', ''in/b.png'', ''in/c.png''] [] [])
   = [(''a.png'', ''x''), (''c.png'', ''y'')]"
proof -
  have d: "distinct (map path_name [''in/a.png'', ''in/b.png'', ''in/c.png''])"
    by (simp add: path_name_def)
  have l: "2 \<le> length [''in/a.png'', ''in/b.png'', ''in/c.png'']" by simp
  from nonempty_documents_are_compared[OF d l] show ?thesis
    by (simp add: extracted_def parse_image_def path_name_def)
qed

section \<open>A failed masking in the report\<close>

text \<open>
  C2 fails as stated. When the analyzer raises, the section written to the masked
  report is the section of the unmasked report, character for character, and it is
  also the section a run writes whose masking succeeded and found nothing: nothing in
  the report tells the two apart. The failure shows in the log only.
\<close>

theorem failed_masking_is_not_flagged:
  "fst (snd (compare_pair (\<lambda>s l es th. Inl (Exception ''no model'')) (\<lambda>s rs ops. Inr s)
       ((''a.png'', ''SSN: 123-45-6789''), (''b.png'', ''SSN: 123-45-6780''))))
   = fst (snd (compare_pair (\<lambda>s l es th. Inr []) (\<lambda>s rs ops. Inr s)
       ((''a.png'', ''SSN: 123-45-6789''), (''b.png'', ''SSN: 123-45-6780''))))
   \<and> fst (snd (compare_pair (\<lambda>s l es th. Inl (Exception ''no model'')) (\<lambda>s rs ops. Inr s)
       ((''a.png'', ''SSN: 123-45-6789''), (''b.png'', ''SSN: 123-45-6780''))))
   = fst (compare_pair (\<lambda>s l es th. Inl (Exception ''no model'')) (\<lambda>s rs ops. Inr s)
       ((''a.png'', ''SSN: 123-45-6789''), (''b.png'', ''SSN: 123-45-6780'')))"
  by (simp add: compare_pair_def mask_pii_def Let_def)

text \<open>
  C2, amended. For every pair of documents whose masking step fails, the section of the
  masked report is the same text as the section of the unmasked report (the unmasked
  diff text between the same header and closing lines), with no mark of the fallback
  in the report; the failure is logged as one ERROR record after the pair's INFO record.
\<close>

theorem failed_masking_falls_back_to_unmasked:
  assumes "diff_text = diff_text_of (compare_texts text1 text2 name1 name2)"
    and "analyze diff_text ''en'' ENTITIES SCORE_THRESHOLD = Inl e
         \<or> (\<exists>results. analyze diff_text ''en'' ENTITIES SCORE_THRESHOLD = Inr results
              \<and> anonymize diff_text results (make_ops results) = Inl e)"
  shows "compare_pair analyze anonymize ((name1, text1), (name2, text2))
     = (comparison_header name1 name2 @ diff_text @ section_end,
        comparison_header name1 name2 @ diff_text @ section_end,
        [(INFO, ''Comparing '' @ name1 @ '' with '' @ name2),
         (ERROR, ''Error masking PII: '' @ str_exn e)])"
  using assms by (auto simp: compare_pair_def mask_pii_def mask_error_def Let_def)

theorem failed_masking_falls_back_to_unmasked_witness:
  "compare_pair (\<lambda>s l es th. Inl (Exception ''no model'')) (\<lambda>s rs ops. Inr s)
       ((''a.png'', ''SSN: 123-45-6789''), (''b.png'', ''SSN: 123-45-6789''))
   = (comparison_header ''a.png'' ''b.png'' @ ''No Differences Found'' @ [LF] @ section_end,
      comparison_header ''a.png'' ''b.png'' @ ''No Differences Found'' @ [LF] @ section_end,
      [(INFO, ''Comparing a.png with b.png''), (ERROR, ''Error masking PII: no model'')])"
proof -
  have d: "diff_text_of (compare_texts ''SSN: 123-45-6789'' ''SSN: 123-45-6789'' ''a.png'' ''b.png'')
           = ''No Differences Found'' @ [LF]"
    by code_simp
  show ?thesis
    using failed_masking_falls_back_to_unmasked
      [of "''No Differences Found'' @ [LF]" "''SSN: 123-45-6789''" "''SSN: 123-45-6789''"
          "''a.png''" "''b.png''" "\<lambda>s l es th. Inl (Exception ''no model'')"
          "Exception ''no model''" "\<lambda>s rs ops. Inr s"] d
    by simp
qed

section \<open>The sections read back\<close>

text \<open>
  The sections in the claim's words. \<open>chunks\<close> pairs every line that begins with
  \<open>Comparison:\<close> with the lines between it and the next such line.
\<close>

fun chunks :: "string list \<Rightarrow> (string \<times> string list) list" where
  "chunks [] = []"
| "chunks (line # lines) =
     (if is_comparison line
      then (line, takeWhile (\<lambda>l. \<not> is_comparison l) lines) # chunks lines
      else chunks lines)"

fun emit :: "(string \<times> string list) list \<Rightarrow> (string \<times> string) list" where
  "emit [] = []"
| "emit [(c, ls)] = (if ls = [] then [] else [(c, join [LF] ls)])"
| "emit ((c, ls) # x # xs) = (c, join [LF] ls) # emit (x # xs)"

definition kept :: "string \<Rightarrow> bool" where
  "kept line \<longleftrightarrow> \<not> is_report_header line \<and> strip line \<noteq> []"

definition nonblank :: "string \<Rightarrow> bool" where
  "nonblank line \<longleftrightarrow> strip line \<noteq> []"

definition found :: "report_section list \<Rightarrow> (string \<times> string) list" where
  "found sections = map (\<lambda>s. (comparison s, diff s)) sections"

definition finish ::
  "report_section list \<times> report_section option \<times> string list \<Rightarrow> report_section list" where
  "finish st = (case st of (sections, current_section, diff_lines) \<Rightarrow>
          if current_section \<noteq> None \<and> diff_lines \<noteq> []
          then sections @ close_section current_section diff_lines
          else sections)"

lemma emit_Cons: "cs \<noteq> [] \<Longrightarrow> emit ((c, ls) # cs) = (c, join [LF] ls) # emit cs"
  by (cases cs) auto

lemma found_append: "found (xs @ ys) = found xs @ found ys"
  by (simp add: found_def)

lemma found_close:
  "found (close_section cur diff_lines) =
     (case cur of None \<Rightarrow> [] | Some c \<Rightarrow> [(comparison c, join [LF] diff_lines)])"
  by (cases cur) (simp_all add: found_def close_section_def)

lemma read_loop_chunks:
  "found (finish (read_loop lines sections cur diff_lines hdr)) =
     found sections @
     emit ((case cur of None \<Rightarrow> []
            | Some c \<Rightarrow> [(comparison c,
                 diff_lines @ filter kept (takeWhile (\<lambda>l. \<not> is_comparison l) lines))])
           @ map (\<lambda>(c, body). (c, filter kept body)) (chunks lines))"
proof (induction lines arbitrary: sections cur diff_lines hdr)
  case Nil
  show ?case by (cases cur) (auto simp: finish_def found_append found_close)
next
  case (Cons line lines)
  show ?case
  proof (cases "is_comparison line")
    case True
    define new where "new = \<lparr>comparison = line,
                    header = (if hdr \<noteq> [] then drop (length hdr - 2) hdr else []),
                    diff = []\<rparr>"
    have step: "read_loop (line # lines) sections cur diff_lines hdr
        = read_loop lines (sections @ close_section cur diff_lines) (Some new) [] hdr"
      using True by (simp add: new_def)
    have c: "comparison new = line" by (simp add: new_def)
    show ?thesis
      unfolding step Cons.IH
      by (cases cur) (simp_all add: True c found_append found_close emit_Cons)
  next
    case False
    show ?thesis
    proof (cases "is_report_header line")
      case True
      then have "\<not> kept line" by (simp add: kept_def)
      with False True show ?thesis by (cases cur) (simp_all add: Cons.IH)
    next
      case nh: False
      then have k: "kept line \<longleftrightarrow> strip line \<noteq> []" by (simp add: kept_def)
      show ?thesis
        using False nh k by (cases cur; cases "strip line = []") (simp_all add: Cons.IH)
    qed
  qed
qed

lemma extract_sections_chunks:
  "found (extract_sections content) =
     emit (map (\<lambda>(c, body). (c, filter kept body)) (chunks (splitlines content)))"
  using read_loop_chunks[of "splitlines content" "[]" None "[]" "[]"]
  by (simp add: extract_sections_def finish_def found_def)

lemma length_chunks: "length (chunks lines) = length (filter is_comparison lines)"
  by (induction lines) auto

lemma length_emit:
  "length (emit cs) = length cs - (if cs \<noteq> [] \<and> snd (last cs) = [] then 1 else 0)"
  by (induction cs rule: emit.induct) auto

lemma chunk_bodies_kept:
  assumes "\<forall>(c, body) \<in> set cs. \<forall>l \<in> set body. \<not> is_report_header l"
  shows "map (\<lambda>(c, body). (c, filter kept body)) cs
       = map (\<lambda>(c, body). (c, filter nonblank body)) cs"
proof (rule map_cong[OF refl])
  fix x assume x: "x \<in> set cs"
  obtain c body where p: "x = (c, body)" by (cases x)
  have "filter kept body = filter nonblank body"
    using assms x p by (intro filter_cong) (auto simp: kept_def nonblank_def)
  with p show "(case x of (c, body) \<Rightarrow> (c, filter kept body))
             = (case x of (c, body) \<Rightarrow> (c, filter nonblank body))" by simp
qed

text \<open>
  C10. The lines of a report's sections (the lines between one \<open>Comparison:\<close> line and
  the next) never begin with \<open>Document Comparison Report\<close> or \<open>Generated:\<close>, the two
  lines of the report's head. For every such text \<open>read_diff_file\<close> returns, in order,
  one section per line beginning with \<open>Comparison:\<close>, its \<open>diff\<close> being the non-blank
  lines up to the next such line joined by line feeds (separator lines included), except
  that the section of the last such line is dropped when no non-blank line follows it.
\<close>

theorem read_diff_file_sections:
  assumes "\<forall>(c, body) \<in> set (chunks (splitlines content)).
             \<forall>l \<in> set body. \<not> is_report_header l"
  shows "read_diff_file (Some content) = Inr (extract_sections content)
    \<and> found (extract_sections content)
        = emit (map (\<lambda>(c, body). (c, filter nonblank body)) (chunks (splitlines content)))
    \<and> length (extract_sections content)
        = length (filter is_comparison (splitlines content))
          - (if chunks (splitlines content) \<noteq> []
                \<and> filter nonblank (snd (last (chunks (splitlines content)))) = []
             then 1 else 0)"
proof -
  let ?cs = "chunks (splitlines content)"
  let ?f = "map (\<lambda>(c, body). (c, filter nonblank body)) ?cs"
  have f: "found (extract_sections content) = emit ?f"
    using extract_sections_chunks[of content] chunk_bodies_kept[OF assms] by simp
  have "length (extract_sections content) = length (emit ?f)"
    using f by (metis found_def length_map)
  also have "\<dots> = length ?f - (if ?f \<noteq> [] \<and> snd (last ?f) = [] then 1 else 0)"
    by (rule length_emit)
  also have "\<dots> = length (filter is_comparison (splitlines content))
          - (if ?cs \<noteq> [] \<and> filter nonblank (snd (last ?cs)) = [] then 1 else 0)"
    using length_chunks[of "splitlines content"]
    by (cases "?cs = []") (simp_all add: last_map split_beta)
  finally show ?thesis using f by (simp add: read_diff_file_def)
qed

theorem read_diff_file_sections_witness:
  "read_diff_file (Some (''Generated: now'' @ [LF, LF] @ ''Comparison: a vs b'' @ [LF]
       @ ''=='' @ [LF] @ ''+x'' @ [LF, LF] @ ''=='' @ [LF, LF] @ ''Comparison: a vs c'' @ [LF]
       @ '' '' @ [LF]))
   = Inr [\<lparr>comparison = ''Comparison: a vs b'', header = [''Generated: now''],
           diff = ''=='' @ [LF] @ ''+x'' @ [LF] @ ''==''\<rparr>]"
proof -
  let ?content = "''Generated: now'' @ [LF, LF] @ ''Comparison: a vs b'' @ [LF]
       @ ''=='' @ [LF] @ ''+x'' @ [LF, LF] @ ''=='' @ [LF, LF] @ ''Comparison: a vs c'' @ [LF]
       @ '' '' @ [LF]"
  have l: "splitlines ?content
      = [''Generated: now'', [], ''Comparison: a vs b'', ''=='', ''+x'', [], ''=='', [],
         ''Comparison: a vs c'', '' '']"
    by (simp add: splitlines_def is_linebreak_def)
  have h: "\<forall>(c, body) \<in> set (chunks (splitlines ?content)).
             \<forall>l \<in> set body. \<not> is_report_header l"
    unfolding l by (simp add: is_comparison_def is_report_header_def startswith_def)
  have e: "extract_sections ?content
      = [\<lparr>comparison = ''Comparison: a vs b'', header = [''Generated: now''],
           diff = ''=='' @ [LF] @ ''+x'' @ [LF] @ ''==''\<rparr>]"
    unfolding extract_sections_def l
    by (simp add: is_comparison_def is_report_header_def startswith_def strip_def is_space_def
        close_section_def)
  from read_diff_file_sections[OF h] e show ?thesis by simp
qed


section \<open>Replacement by placeholders\<close>


lemma resolved_from_starts:
  "resolved_from pos n rs \<Longrightarrow> r \<in> set rs \<Longrightarrow> pos \<le> span_start r"
proof (induction rs arbitrary: pos)
  case Nil
  then show ?case by simp
next
  case (Cons a rs)
  show ?case
  proof (cases "r = a")
    case True
    with Cons.prems show ?thesis by simp
  next
    case False
    with Cons.prems have "r \<in> set rs" "resolved_from (span_end a) n rs" by auto
    from Cons.IH[OF this(2,1)] Cons.prems(1) show ?thesis by simp
  qed
qed

lemma resolved_from_sorted: "resolved_from pos n rs \<Longrightarrow> sorted (map span_start rs)"
proof (induction rs arbitrary: pos)
  case Nil
  then show ?case by simp
next
  case (Cons a rs)
  have "span_start a \<le> span_start r" if "r \<in> set rs" for r
    using resolved_from_starts[of "span_end a" n rs r] Cons.prems that by simp
  with Cons show ?case by auto
qed

lemma foldr_replace_spliced:
  assumes "resolved_from pos (length s) rs"
  shows "foldr (\<lambda>r t. replace_span t r (ph r)) rs s = take pos s @ spliced ph pos s rs"
  using assms
proof (induction rs arbitrary: pos)
  case Nil
  then show ?case by simp
next
  case (Cons r rs)
  let ?X = "foldr (\<lambda>r t. replace_span t r (ph r)) rs s"
  from Cons.prems have b: "pos \<le> span_start r" "span_start r < span_end r"
    "span_end r \<le> length s" and rest: "resolved_from (span_end r) (length s) rs" by simp_all
  have X: "?X = take (span_end r) s @ spliced ph (span_end r) s rs"
    by (rule Cons.IH[OF rest])
  have t: "take (span_start r) ?X = take (span_start r) s"
    using b by (simp add: X min_def)
  have d: "drop (span_end r) ?X = spliced ph (span_end r) s rs"
    using b by (simp add: X)
  have p: "take (span_start r) s = take pos s @ take (span_start r - pos) (drop pos s)"
    using b by (metis le_add_diff_inverse take_add)
  have "foldr (\<lambda>r t. replace_span t r (ph r)) (r # rs) s = replace_span ?X r (ph r)"
    by simp
  also have "\<dots> = take (span_start r) ?X @ ph r @ drop (span_end r) ?X"
    by (simp only: replace_span_def)
  also have "\<dots> = take pos s @ spliced ph pos s (r # rs)"
    unfolding t d p by simp
  finally show ?case .
qed

lemma anonymize_spec_spliced:
  assumes "resolved_from 0 (length s) rs"
  shows "anonymize_spec s rs ops = Inr (spliced (placeholder ops) 0 s rs)"
proof -
  have "sort_key span_start rs = rs"
    using resolved_from_sorted[OF assms] by (rule sort_key_id_if_sorted)
  then show ?thesis
    using foldr_replace_spliced[OF assms, of "placeholder ops"]
    by (simp add: anonymize_spec_def foldr_conv_fold)
qed

lemma make_ops_lookup:
  "r \<in> set rs \<Longrightarrow> \<exists>r' \<in> set rs. entity_type r' = entity_type r
      \<and> (fold (\<lambda>r ops. ops(entity_type r \<mapsto> replace_operator r)) rs m) (entity_type r)
        = Some (replace_operator r')"
proof (induction rs arbitrary: m rule: rev_induct)
  case Nil
  then show ?case by simp
next
  case (snoc x xs)
  show ?case
  proof (cases "entity_type x = entity_type r")
    case True
    then show ?thesis by auto
  next
    case False
    with snoc.prems have "r \<in> set xs" by auto
    from snoc.IH[OF this, of m] False show ?thesis by auto
  qed
qed

lemma placeholder_make_ops:
  assumes "r \<in> set rs"
  shows "placeholder (make_ops rs) r = ''<'' @ entity_type r @ ''>''"
proof -
  from make_ops_lookup[OF assms, of Map.empty] obtain r' where
    "entity_type r' = entity_type r" "make_ops rs (entity_type r) = Some (replace_operator r')"
    by (auto simp: make_ops_def)
  then show ?thesis by (simp add: placeholder_def replace_operator_def)
qed

lemma spliced_cong:
  "(\<And>r. r \<in> set rs \<Longrightarrow> f r = g r) \<Longrightarrow> spliced f pos s rs = spliced g pos s rs"
  by (induction rs arbitrary: pos) auto

lemma entity_names_upper: "t \<in> set ENTITIES \<Longrightarrow> map ascii_upper t = t"
  by (auto simp: ENTITIES_def ascii_upper_def)

text \<open>
  C8. When the analyzer returns a resolved span list for the text, of the entity types
  \<open>mask_pii\<close> asks for, the masked text is the input with every span's substring
  replaced by \<open><\<close>, the span's entity type in upper case, and \<open>>\<close>, and with the text
  between the spans unchanged. \<open>mask_pii\<close> builds the operator for every type that
  occurs in the results, so no type is left to a default.
\<close>

theorem mask_pii_placeholders:
  assumes "analyze s ''en'' ENTITIES SCORE_THRESHOLD = Inr rs"
    and "resolved_from 0 (length s) rs"
    and "\<forall>r \<in> set rs. entity_type r \<in> set ENTITIES"
  shows "fst (mask_pii analyze anonymize_spec s)
       = spliced (\<lambda>r. ''<'' @ map ascii_upper (entity_type r) @ ''>'') 0 s rs"
proof -
  have "fst (mask_pii analyze anonymize_spec s) = spliced (placeholder (make_ops rs)) 0 s rs"
    using assms(1) anonymize_spec_spliced[OF assms(2), of "make_ops rs"]
    by (simp add: mask_pii_def)
  also have "\<dots> = spliced (\<lambda>r. ''<'' @ map ascii_upper (entity_type r) @ ''>'') 0 s rs"
  proof (rule spliced_cong)
    fix r assume r: "r \<in> set rs"
    then have "map ascii_upper (entity_type r) = entity_type r"
      using assms(3) entity_names_upper by blast
    with placeholder_make_ops[OF r]
    show "placeholder (make_ops rs) r = ''<'' @ map ascii_upper (entity_type r) @ ''>''"
      by simp
  qed
  finally show ?thesis .
qed

theorem mask_pii_placeholders_witness:
  "fst (mask_pii
     (\<lambda>s l es th. Inr [\<lparr>entity_type = ''SSN'', span_start = 5, span_end = 16, score = 9 / 10,
                          source = Pattern\<rparr>])
     anonymize_spec ''SSN: 123-45-6789'')
   = ''SSN: <SSN>''"
proof -
  let ?r = "\<lparr>entity_type = ''SSN'', span_start = 5, span_end = 16, score = 9 / 10,
             source = Pattern\<rparr>"
  have t: "\<forall>r \<in> set [?r]. entity_type r \<in> set ENTITIES" by (simp add: ENTITIES_def)
  from mask_pii_placeholders[of "\<lambda>s l es th. Inr [?r]" "''SSN: 123-45-6789''" "[?r]", OF refl _ t]
  show ?thesis by (simp add: ascii_upper_def)
qed


section \<open>The score threshold\<close>
















section \<open>Masking and line boundaries\<close>

text \<open>
  The number of lines \<open>splitlines\<close> finds depends on the line read so far only through
  its being empty or not: \<open>line_count pending s\<close> counts the lines of \<open>s\<close>, a line being
  pending when characters have been read since the last boundary.
\<close>

fun line_count :: "bool \<Rightarrow> string \<Rightarrow> nat" where
  "line_count pending [] = (if pending then 1 else 0)"
| "line_count pending [c] = 1"
| "line_count pending (c # d # cs) =
     (if c = CR \<and> d = LF then 1 + line_count False cs
      else if is_linebreak c then 1 + line_count False (d # cs)
      else line_count True (d # cs))"

definition flat :: "string \<Rightarrow> bool" where
  "flat u \<longleftrightarrow> u \<noteq> [] \<and> (\<forall>c \<in> set u. \<not> is_linebreak c)"

lemma length_splitlines_from: "length (splitlines_from cur s) = line_count (cur \<noteq> []) s"
  by (induction cur s rule: splitlines_from.induct) auto

lemma length_splitlines: "length (splitlines s) = line_count False s"
  by (simp add: splitlines_def length_splitlines_from)

lemma CR_linebreak: "is_linebreak CR"
  by (simp add: is_linebreak_def)

lemma LF_linebreak: "is_linebreak LF"
  by (simp add: is_linebreak_def)

lemma line_count_flat: "flat u \<Longrightarrow> line_count p (u @ q) = line_count True q"
proof (induction u arbitrary: p)
  case Nil
  then show ?case by (simp add: flat_def)
next
  case (Cons c u)
  then have c: "\<not> is_linebreak c" by (simp add: flat_def)
  then have ncr: "c \<noteq> CR" using CR_linebreak by auto
  show ?case
  proof (cases u)
    case Nil
    with c ncr show ?thesis by (cases q) simp_all
  next
    case (Cons d u')
    then have "flat u" using Cons.prems by (simp add: flat_def)
    from Cons.IH[OF this, of True] c ncr Cons show ?thesis by simp
  qed
qed

lemma line_count_replace:
  assumes "flat u" "flat v"
  shows "line_count p (x @ u @ q) = line_count p (x @ v @ q)"
proof (induction p x rule: line_count.induct)
  case (1 pending)
  show ?case using assms by (simp add: line_count_flat)
next
  case (2 pending c)
  obtain u0 u' where u: "u = u0 # u'" using assms(1) by (cases u) (auto simp: flat_def)
  obtain v0 v' where v: "v = v0 # v'" using assms(2) by (cases v) (auto simp: flat_def)
  have nlf: "u0 \<noteq> LF" "v0 \<noteq> LF" using assms u v LF_linebreak by (auto simp: flat_def)
  have "line_count False (u @ q) = line_count False (v @ q)"
       "line_count True (u @ q) = line_count True (v @ q)"
    using assms by (simp_all add: line_count_flat)
  then show ?case using nlf by (simp add: u v)
next
  case (3 pending c d cs)
  then show ?case by simp
qed

lemma spliced_line_count:
  assumes "resolved_from pos (length s) rs"
    and "\<forall>r \<in> set rs. flat (ph r) \<and> flat (take (span_end r - span_start r) (drop (span_start r) s))"
  shows "line_count p (w @ spliced ph pos s rs) = line_count p (w @ drop pos s)"
  using assms
proof (induction rs arbitrary: pos w)
  case Nil
  then show ?case by simp
next
  case (Cons r rs)
  let ?g = "take (span_start r - pos) (drop pos s)"
  let ?u = "take (span_end r - span_start r) (drop (span_start r) s)"
  from Cons.prems have b: "pos \<le> span_start r" "span_start r < span_end r"
    "span_end r \<le> length s" and rest: "resolved_from (span_end r) (length s) rs" by simp_all
  from Cons.prems(2) have fl: "flat (ph r)" "flat ?u"
    and fr: "\<forall>r \<in> set rs. flat (ph r) \<and> flat (take (span_end r - span_start r) (drop (span_start r) s))"
    by simp_all
  have split1: "drop pos s = ?g @ drop (span_start r) s"
    using b by (metis append_take_drop_id drop_drop le_add_diff_inverse2)
  have split2: "drop (span_start r) s = ?u @ drop (span_end r) s"
    using b by (metis append_take_drop_id drop_drop le_add_diff_inverse2 less_imp_le_nat)
  have "line_count p (w @ spliced ph pos s (r # rs))
      = line_count p ((w @ ?g @ ph r) @ spliced ph (span_end r) s rs)" by simp
  also have "\<dots> = line_count p ((w @ ?g @ ph r) @ drop (span_end r) s)"
    by (rule Cons.IH[OF rest fr])
  also have "\<dots> = line_count p ((w @ ?g) @ ph r @ drop (span_end r) s)" by simp
  also have "\<dots> = line_count p ((w @ ?g) @ ?u @ drop (span_end r) s)"
    by (rule line_count_replace[OF fl])
  also have "\<dots> = line_count p (w @ drop pos s)"
    using split1 split2 by simp
  finally show ?case .
qed

lemma resolved_from_bounds:
  "resolved_from pos n rs \<Longrightarrow> r \<in> set rs \<Longrightarrow> span_start r < span_end r \<and> span_end r \<le> n"
proof (induction rs arbitrary: pos)
  case Nil
  then show ?case by simp
next
  case (Cons a rs)
  show ?case
  proof (cases "r = a")
    case True
    with Cons.prems show ?thesis by simp
  next
    case False
    with Cons.prems have "r \<in> set rs" "resolved_from (span_end a) n rs" by auto
    from Cons.IH[OF this(2,1)] show ?thesis .
  qed
qed

lemma flat_placeholder: "t \<in> set ENTITIES \<Longrightarrow> flat (''<'' @ t @ ''>'')"
  by (auto simp: ENTITIES_def flat_def is_linebreak_def)

text \<open>
  C3 fails as stated. The class \<open>[@\s@]\<close> of the e-mail pattern admits a line feed
  between the two parts of an address, so that a span of this pattern may run across a
  line boundary: in this text of two lines the pattern matches all of it, and the
  masked text is the placeholder alone, one line.
\<close>

theorem masking_joins_lines:
  "fst (mask_pii (analyze_spec (\<lambda>s. [])) anonymize_spec (''a'' @ [LF] @ ''b.c''))
     = ''<EMAIL_ADDRESS>''
   \<and> length (splitlines (''a'' @ [LF] @ ''b.c'')) = 2
   \<and> length (splitlines
        (fst (mask_pii (analyze_spec (\<lambda>s. [])) anonymize_spec (''a'' @ [LF] @ ''b.c'')))) = 1"
proof -
  have d: "detect_all (''a'' @ [LF] @ ''b.c'')
      = [\<lparr>entity_type = ''EMAIL_ADDRESS'', span_start = 0, span_end = 5,
           score = 8 / 10, source = Pattern\<rparr>]"
    by (simp add: detect_all_def custom_recognizers_def pattern_spans_def find_from.simps
        ssn_pattern_def phone_pattern_def email_pattern_def email_structured_pattern_def
        name_pattern_def policy_pattern_def lit_def ci_def ascii_upper_def word_boundary_def
        is_word_def is_digit_def is_letter_def in_range_def run_def is_space_def)
  have m: "fst (mask_pii (analyze_spec (\<lambda>s. [])) anonymize_spec (''a'' @ [LF] @ ''b.c''))
     = ''<EMAIL_ADDRESS>''"
    using d
    by (simp add: mask_pii_def analyze_spec_def ENTITIES_def SCORE_THRESHOLD_def resolve_def
        above_threshold_def overlap_groups_def anonymize_spec_def make_ops_def
        replace_operator_def placeholder_def replace_span_def)
  show ?thesis unfolding m by (simp add: splitlines_def is_linebreak_def)
qed

text \<open>
  C3, amended. When no resolved span holds a line boundary character (the spans being a
  resolved list for the text, of the entity types asked for), \<open>mask_pii\<close> returns a text
  with exactly as many lines as its input.
\<close>

theorem mask_pii_keeps_line_count:
  assumes "analyze s ''en'' ENTITIES SCORE_THRESHOLD = Inr rs"
    and "resolved_from 0 (length s) rs"
    and "\<forall>r \<in> set rs. entity_type r \<in> set ENTITIES"
    and "\<forall>r \<in> set rs. \<forall>c \<in> set (take (span_end r - span_start r) (drop (span_start r) s)).
           \<not> is_linebreak c"
  shows "length (splitlines (fst (mask_pii analyze anonymize_spec s))) = length (splitlines s)"
proof -
  let ?ph = "\<lambda>r. ''<'' @ entity_type r @ ''>''"
  have m: "fst (mask_pii analyze anonymize_spec s) = spliced (placeholder (make_ops rs)) 0 s rs"
    using assms(1) anonymize_spec_spliced[OF assms(2), of "make_ops rs"]
    by (simp add: mask_pii_def)
  have e: "spliced (placeholder (make_ops rs)) 0 s rs = spliced ?ph 0 s rs"
    by (rule spliced_cong) (rule placeholder_make_ops)
  have fl: "\<forall>r \<in> set rs. flat (?ph r)
      \<and> flat (take (span_end r - span_start r) (drop (span_start r) s))"
  proof
    fix r assume r: "r \<in> set rs"
    from resolved_from_bounds[OF assms(2) r]
    have "take (span_end r - span_start r) (drop (span_start r) s) \<noteq> []" by auto
    moreover have "flat (?ph r)" using assms(3) r by (intro flat_placeholder) blast
    ultimately
    show "flat (?ph r) \<and> flat (take (span_end r - span_start r) (drop (span_start r) s))"
      using assms(4) r by (simp add: flat_def)
  qed
  from spliced_line_count[OF assms(2) fl, of False "[]"]
  show ?thesis by (simp add: m e length_splitlines)
qed

theorem mask_pii_keeps_line_count_witness:
  "length (splitlines (fst (mask_pii
     (\<lambda>s l es th. Inr [\<lparr>entity_type = ''SSN'', span_start = 5, span_end = 16, score = 9 / 10,
                          source = Pattern\<rparr>])
     anonymize_spec (''SSN: 123-45-6789'' @ [LF] @ ''x''))))
   = length (splitlines (''SSN: 123-45-6789'' @ [LF] @ ''x''))"
proof -
  let ?r = "\<lparr>entity_type = ''SSN'', span_start = 5, span_end = 16, score = 9 / 10,
             source = Pattern\<rparr>"
  let ?s = "''SSN: 123-45-6789'' @ [LF] @ ''x''"
  have t: "\<forall>r \<in> set [?r]. entity_type r \<in> set ENTITIES" by (simp add: ENTITIES_def)
  have f: "\<forall>r \<in> set [?r].
      \<forall>c \<in> set (take (span_end r - span_start r) (drop (span_start r) ?s)). \<not> is_linebreak c"
    by (simp add: is_linebreak_def)
  have res: "resolved_from 0 (length ?s) [?r]" by simp
  from mask_pii_keeps_line_count[of "\<lambda>s l es th. Inr [?r]" ?s "[?r]", OF refl res t f]
  show ?thesis .
qed


section \<open>The framing of a report section\<close>

lemma splitlines_from_line:
  assumes "\<forall>c \<in> set u. \<not> is_linebreak c"
  shows "splitlines_from cur (u @ LF # rest) = (cur @ u) # splitlines_from [] rest"
  using assms
proof (induction u arbitrary: cur)
  case Nil
  show ?case by (cases rest) (simp_all add: is_linebreak_def)
next
  case (Cons c u)
  then have c: "\<not> is_linebreak c" by simp
  then have "c \<noteq> CR" by (auto simp: is_linebreak_def)
  obtain d ds where "u @ LF # rest = d # ds" by (cases u) auto
  with Cons c \<open>c \<noteq> CR\<close> show ?case by simp
qed

lemma splitlines_from_replicate:
  "\<not> is_linebreak c \<Longrightarrow>
   splitlines_from cur (replicate n c @ LF # rest) = (cur @ replicate n c) # splitlines_from [] rest"
  by (rule splitlines_from_line) simp

lemma splitlines_from_LF: "splitlines_from cur (LF # rest) = cur # splitlines_from [] rest"
  using splitlines_from_line[of "[]" cur rest] by simp

text \<open>
  C9 fails as stated for the masked report. The name pattern ends in \<open>\s*(?=\n|$)\<close>, and
  at the end of the text its \<open>\s*\<close> takes the final line feed into the match. For two
  one-line documents that differ in a name, the masked diff text therefore ends in the
  placeholder, without a line feed, and in the masked section the closing separator
  follows the last diff line directly, with no blank line between them.
\<close>

theorem masked_section_without_blank_line:
  "splitlines (fst (snd (compare_pair (analyze_spec (\<lambda>s. [])) anonymize_spec
       ((''a.png'', ''Name: Al''), (''b.png'', ''Name: Bo'')))))
   = [''Comparison: a.png vs b.png'', separator, ''Differences Found:'', ''--- a.png'',
      ''+++ b.png'', ''@@ -1 +1 @@'', ''-<PERSON>'', ''+<PERSON>'', separator, []]"
proof -
  have diff: "diff_text_of (compare_texts ''Name: Al'' ''Name: Bo'' ''a.png'' ''b.png'')
      = ''Differences Found:'' @ [LF] @ ''--- a.png'' @ [LF] @ ''+++ b.png'' @ [LF]
        @ ''@@ -1 +1 @@'' @ [LF] @ ''-Name: Al'' @ [LF] @ ''+Name: Bo'' @ [LF]"
    by code_simp
  have m: "fst (mask_pii (analyze_spec (\<lambda>s. [])) anonymize_spec
        (''Differences Found:'' @ [LF] @ ''--- a.png'' @ [LF] @ ''+++ b.png'' @ [LF]
        @ ''@@ -1 +1 @@'' @ [LF] @ ''-Name: Al'' @ [LF] @ ''+Name: Bo'' @ [LF]))
      = ''Differences Found:'' @ [LF] @ ''--- a.png'' @ [LF] @ ''+++ b.png'' @ [LF]
        @ ''@@ -1 +1 @@'' @ [LF] @ ''-<PERSON>'' @ [LF] @ ''+<PERSON>''"
    by code_simp
  have sec: "fst (snd (compare_pair (analyze_spec (\<lambda>s. [])) anonymize_spec
       ((''a.png'', ''Name: Al''), (''b.png'', ''Name: Bo''))))
     = comparison_header ''a.png'' ''b.png''
       @ (''Differences Found:'' @ [LF] @ ''--- a.png'' @ [LF] @ ''+++ b.png'' @ [LF]
        @ ''@@ -1 +1 @@'' @ [LF] @ ''-<PERSON>'' @ [LF] @ ''+<PERSON>'') @ section_end"
    using m by (simp add: compare_pair_def diff Let_def split_beta)
  have eq: "\<not> is_linebreak (CHR ''='')" by (simp add: is_linebreak_def)
  show ?thesis
    unfolding sec
    by (simp add: comparison_header_def section_end_def separator_def splitlines_def
        is_linebreak_def splitlines_from_replicate[OF eq] splitlines_from_LF)
qed

text \<open>
  C9, amended. In the unmasked report every comparison section is the line
  \<open>Comparison: <nameA> vs <nameB>\<close>, a line of exactly 80 \<open>=\<close>, the body (the line
  \<open>No Differences Found\<close>, or the line \<open>Differences Found:\<close> and the lines of the diff), a
  blank line, a second line of 80 \<open>=\<close> and a blank line. The section of the masked
  report has the same two opening lines and the same closing around the text \<open>mask_pii\<close>
  returns for that body, and is the same section when masking leaves the body as it is.
\<close>

theorem report_section_framing:
  "fst (compare_pair analyze anonymize ((name1, text1), (name2, text2)))
     = ''Comparison: '' @ name1 @ '' vs '' @ name2 @ [LF] @ replicate 80 (CHR ''='') @ [LF]
       @ diff_text_of (compare_texts text1 text2 name1 name2)
       @ [LF] @ replicate 80 (CHR ''='') @ [LF, LF]
   \<and> fst (snd (compare_pair analyze anonymize ((name1, text1), (name2, text2))))
     = ''Comparison: '' @ name1 @ '' vs '' @ name2 @ [LF] @ replicate 80 (CHR ''='') @ [LF]
       @ fst (mask_pii analyze anonymize (diff_text_of (compare_texts text1 text2 name1 name2)))
       @ [LF] @ replicate 80 (CHR ''='') @ [LF, LF]
   \<and> diff_text_of (compare_texts text1 text2 name1 name2)
     = (if compare_texts text1 text2 name1 name2 = [] then ''No Differences Found'' @ [LF]
        else ''Differences Found:'' @ [LF]
             @ join [LF] (compare_texts text1 text2 name1 name2) @ [LF])
   \<and> (fst (mask_pii analyze anonymize (diff_text_of (compare_texts text1 text2 name1 name2)))
        = diff_text_of (compare_texts text1 text2 name1 name2)
      \<longrightarrow> fst (snd (compare_pair analyze anonymize ((name1, text1), (name2, text2))))
          = fst (compare_pair analyze anonymize ((name1, text1), (name2, text2))))"
  by (cases "mask_pii analyze anonymize (diff_text_of (compare_texts text1 text2 name1 name2))")
     (simp add: compare_pair_def comparison_header_def section_end_def separator_def
        diff_text_of_def Let_def)

theorem report_section_framing_witness:
  "fst (snd (compare_pair (\<lambda>s l es th. Inr []) (\<lambda>s rs ops. Inr s)
       ((''a.png'', ''x''), (''b.png'', ''x''))))
   = ''Comparison: a.png vs b.png'' @ [LF] @ replicate 80 (CHR ''='') @ [LF]
     @ ''No Differences Found'' @ [LF] @ [LF] @ replicate 80 (CHR ''='') @ [LF, LF]"
proof -
  have d: "compare_texts ''x'' ''x'' ''a.png'' ''b.png'' = []"
    by code_simp
  have m: "fst (mask_pii (\<lambda>s l es th. Inr []) (\<lambda>s rs ops. Inr s)
              (diff_text_of (compare_texts ''x'' ''x'' ''a.png'' ''b.png'')))
           = diff_text_of (compare_texts ''x'' ''x'' ''a.png'' ''b.png'')"
    by (simp add: mask_pii_def)
  from report_section_framing[of "\<lambda>s l es th. Inr []" "\<lambda>s rs ops. Inr s"
      "''a.png''" "''x''" "''b.png''" "''x''"] m
  show ?thesis by (simp add: d diff_text_of_def)
qed

section \<open>The diff of a document with itself\<close>




text \<open>
  When a sequence is matched against itself, \<open>common_run a i j\<close> is the value the inner
  loop of \<open>find_longest_match\<close> stores in \<open>newj2len[j]\<close> in row \<open>i\<close>: the length of the
  run of matching pairs that ends at \<open>(i, j)\<close>, and zero where \<open>j\<close> is not listed for
  \<open>a[i]\<close>. It is symmetric, and greatest on the diagonal of its row.
\<close>

fun common_run :: "'a list \<Rightarrow> nat \<Rightarrow> nat \<Rightarrow> nat" where
  "common_run a 0 j = (if j \<in> set (b2j a (a ! 0)) then 1 else 0)"
| "common_run a (Suc i) 0 = (if 0 \<in> set (b2j a (a ! Suc i)) then 1 else 0)"
| "common_run a (Suc i) (Suc j) = (if Suc j \<in> set (b2j a (a ! Suc i)) then Suc (common_run a i j) else 0)"


lemma common_run_pos: "j \<in> set (b2j a (a ! i)) \<Longrightarrow> 0 < common_run a i j"
  by (cases i; cases j) simp_all






















end
